theory Spec2Isabelle
  imports Main "HOL-Library.Word"
begin

section \<open>Memory model\<close>

text \<open>
  The two C files manipulate heap blocks through raw pointers. The embedding keeps the
  blocks in two stores, one for \<^verbatim>\<open>mmatic\<close> structures and one for \<^verbatim>\<open>mmchunk\<close> blocks
  (header and payload together). A store is a list of slots indexed by address: a slot
  is \<open>None\<close> once the block has been released. \<^verbatim>\<open>malloc\<close> and \<^verbatim>\<open>mmap\<close> always
  succeed and return the next unused address, so that addresses of one store grow in
  the order of allocation and are never handed out twice.

  Sizes and lengths are natural numbers: the structure declarations (\<^verbatim>\<open>lib.h\<close>) are
  not part of the sources, so the widths of the integer fields are unknown, and the
  quantities the library computes are taken to stay within their range. The counts
  that \<^verbatim>\<open>xstr_set_size\<close> and \<^verbatim>\<open>xstr_append_size\<close> receive as an \<^verbatim>\<open>int\<close> are integers
  in the model as well, and may be negative.
\<close>

type_synonym addr = nat
type_synonym byte = "8 word"
type_synonym 'a store = "'a option list"

definition lookup :: "'a store \<Rightarrow> addr \<Rightarrow> 'a option" where
  "lookup st p = (if p < length st then st ! p else None)"

definition new :: "'a store \<Rightarrow> 'a \<Rightarrow> 'a store" where
  "new st v = st @ [Some v]"

definition upd :: "'a store \<Rightarrow> addr \<Rightarrow> 'a \<Rightarrow> 'a store" where
  "upd st p v = st[p := Some v]"

definition del :: "'a store \<Rightarrow> addr \<Rightarrow> 'a store" where
  "del st p = st[p := None]"

text \<open>
  \<open>Die\<close> is a call of \<^verbatim>\<open>die()\<close> (also through \<^verbatim>\<open>asnsert\<close>): the process is
  aborted. \<open>Undefined\<close> is an access that C leaves undefined: a null or dangling pointer
  is dereferenced, a byte outside of a payload is read or written, an uninitialised
  byte is read as a character.
\<close>

datatype error = Die | Undefined

definition and_then :: "error + 'a \<Rightarrow> ('a \<Rightarrow> error + 'b) \<Rightarrow> error + 'b" where
  "and_then r f = (case r of Inl e \<Rightarrow> Inl e | Inr x \<Rightarrow> f x)"

text \<open>
  A \<^verbatim>\<open>void *\<close> handed to the library is null, the address of a manager, or the address
  of the payload of a chunk; \<open>MemP c\<close> is the payload of the chunk at \<open>c\<close>, so that
  \<^verbatim>\<open>PTR_TO_CHUNK\<close> of \<open>MemP c\<close> is \<open>c\<close> and \<^verbatim>\<open>CHUNK_TO_PTR\<close> of \<open>c\<close> is \<open>MemP c\<close>.
  Pointers stored in the structures are \<open>addr option\<close>, \<open>None\<close> for \<^verbatim>\<open>NULL\<close>.
\<close>

datatype ptr = Null | MgrP addr | MemP addr

text \<open>
  \<^verbatim>\<open>struct mmchunk\<close>, with the payload that follows the header in the same block. The
  fields \<^verbatim>\<open>cfile\<close> and \<^verbatim>\<open>cline\<close> only feed diagnostics and are left out. A payload
  byte is \<open>None\<close> while it has not been written.
\<close>

record mmchunk =
  c_tag :: "32 word"
  c_shared :: bool
  c_alloc :: nat
  c_next :: "addr option"
  c_prev :: "addr option"
  c_mgr :: "addr option"
  c_payload :: "byte option list"

record mmatic =
  m_tag :: "32 word"
  m_totalloc :: nat
  m_first :: "addr option"
  m_last :: "addr option"

record heap =
  mgrs :: "mmatic store"
  chunks :: "mmchunk store"

definition TAG_MGR :: "32 word" where
  "TAG_MGR = 0xBABBA777"

definition TAG_CHUNK :: "32 word" where
  "TAG_CHUNK = 0xABBA1234"

definition IS_CHUNK :: "heap \<Rightarrow> addr \<Rightarrow> bool" where
  "IS_CHUNK h c = (case lookup (chunks h) c of None \<Rightarrow> False | Some C \<Rightarrow> c_tag C = TAG_CHUNK)"

definition IS_MGR :: "heap \<Rightarrow> addr \<Rightarrow> bool" where
  "IS_MGR h m = (case lookup (mgrs h) m of None \<Rightarrow> False | Some M \<Rightarrow> m_tag M = TAG_MGR)"

definition empty_heap :: heap where
  "empty_heap = \<lparr>mgrs = [], chunks = []\<rparr>"

section \<open>mmatic.c\<close>

text \<open>The block that \<^verbatim>\<open>bzero\<close> leaves: the sentinel of a manager before its \<^verbatim>\<open>mgr\<close> is set.\<close>

definition zero_chunk :: mmchunk where
  "zero_chunk = \<lparr>c_tag = 0, c_shared = False, c_alloc = 0, c_next = None, c_prev = None,
     c_mgr = None, c_payload = []\<rparr>"

definition mmatic_create :: "heap \<Rightarrow> ptr \<times> heap" where
  "mmatic_create h =
     (let mgr = length (mgrs h);
          first = length (chunks h)
      in (MgrP mgr,
          \<lparr>mgrs = new (mgrs h)
             \<lparr>m_tag = TAG_MGR, m_totalloc = 0, m_first = Some first, m_last = Some first\<rparr>,
           chunks = new (chunks h) (zero_chunk\<lparr>c_mgr := Some mgr\<rparr>)\<rparr>))"

text \<open>
  \<^verbatim>\<open>IS_MGR\<close> applied to a payload pointer reads the first bytes of the payload as the
  field \<^verbatim>\<open>tag\<close> of a \<^verbatim>\<open>struct mmatic\<close>. The structure is declared in \<^verbatim>\<open>lib.h\<close>;
  the tag is taken to be its first field, of 32 bits, stored with the least significant
  byte first. There is no value when the payload is shorter than the tag or when one of
  the four bytes has not been written.
\<close>

definition payload_tag :: "byte option list \<Rightarrow> 32 word option" where
  "payload_tag mem =
     (case those (take 4 mem) of
        Some [b0, b1, b2, b3] \<Rightarrow>
          Some (ucast b0 + 256 * ucast b1 + 65536 * ucast b2 + 16777216 * ucast b3)
      | _ \<Rightarrow> None)"

text \<open>
  Lines 77 to 85 of \<^verbatim>\<open>mmatic_allocate\<close> (and 141 to 151 of \<^verbatim>\<open>mmatic_free_\<close>): the
  manager is the argument itself when it carries the manager tag, and the \<^verbatim>\<open>mgr\<close> field
  of the chunk in front of the argument when that carries the chunk tag. The test
  \<^verbatim>\<open>IS_MGR(mgr)\<close> comes first and reads the tag through the argument, also when the
  argument is a payload pointer: that read is undefined when there is no tag to read,
  and a payload that begins with the manager tag is taken for a manager, whose fields
  \<^verbatim>\<open>last\<close> and \<^verbatim>\<open>totalloc\<close> are then read from bytes of the payload or beyond it,
  which is undefined as well.
\<close>

definition owner_mgr :: "heap \<Rightarrow> ptr \<Rightarrow> error + addr option" where
  "owner_mgr h mgr_or_mem =
     (case mgr_or_mem of
        Null \<Rightarrow> Inl Die
      | MgrP m \<Rightarrow> if IS_MGR h m then Inr (Some m) else Inl Die
      | MemP c \<Rightarrow>
          (case lookup (chunks h) c of
             None \<Rightarrow> Inl Die
           | Some C \<Rightarrow>
               (case payload_tag (c_payload C) of
                  None \<Rightarrow> Inl Undefined
                | Some t \<Rightarrow>
                    if t = TAG_MGR then Inl Undefined
                    else if c_tag C = TAG_CHUNK then Inr (c_mgr C) else Inl Die)))"

definition deref_mgr :: "heap \<Rightarrow> addr option \<Rightarrow> error + addr \<times> mmatic" where
  "deref_mgr h p =
     (case p of
        None \<Rightarrow> Inl Undefined
      | Some m \<Rightarrow> (case lookup (mgrs h) m of None \<Rightarrow> Inl Undefined | Some M \<Rightarrow> Inr (m, M)))"

definition deref_chunk :: "heap \<Rightarrow> addr option \<Rightarrow> error + addr \<times> mmchunk" where
  "deref_chunk h p =
     (case p of
        None \<Rightarrow> Inl Undefined
      | Some c \<Rightarrow> (case lookup (chunks h) c of None \<Rightarrow> Inl Undefined | Some C \<Rightarrow> Inr (c, C)))"

text \<open>
  \<^verbatim>\<open>mmatic_allocate(size, mgr_or_mem, zero, shared, start, flags, cfile, cline)\<close>. The
  mapping hint, the mapping flags and the call site do not influence the bookkeeping
  and are not arguments of the model. An anonymous mapping is zero-filled by the
  system; a block from \<^verbatim>\<open>malloc\<close> is uninitialised unless \<^verbatim>\<open>zero\<close> asks for \<^verbatim>\<open>memset\<close>.
\<close>

definition mmatic_allocate :: "nat \<Rightarrow> ptr \<Rightarrow> bool \<Rightarrow> bool \<Rightarrow> heap \<Rightarrow> error + ptr \<times> heap" where
  "mmatic_allocate sz mgr_or_mem zero shared h =
     and_then (owner_mgr h mgr_or_mem) (\<lambda>mgr.
     let chunk = length (chunks h);
         fill = (if shared \<or> zero then Some 0 else None)
     in
     and_then (deref_mgr h mgr) (\<lambda>(m, M).
     and_then (deref_chunk h (m_last M)) (\<lambda>(l, L).
       Inr (MemP chunk,
            \<lparr>mgrs = upd (mgrs h) m
               (M\<lparr>m_last := Some chunk, m_totalloc := m_totalloc M + sz\<rparr>),
             chunks = upd (new (chunks h)
               \<lparr>c_tag = TAG_CHUNK, c_shared = shared, c_alloc = sz, c_next = None,
                c_prev = m_last M, c_mgr = mgr, c_payload = replicate sz fill\<rparr>)
               l (L\<lparr>c_next := Some chunk\<rparr>)\<rparr>))))"

text \<open>
  Reading and writing payloads. \<open>load\<close> is the content of the payload a pointer
  refers to; \<open>store p off bs\<close> writes the bytes \<open>bs\<close> from offset \<open>off\<close> of that
  payload on. An access through a pointer that is not the payload of a live chunk, or
  a write that does not fit into the payload, is undefined.
\<close>

definition load :: "heap \<Rightarrow> ptr \<Rightarrow> error + byte option list" where
  "load h p =
     (case p of
        MemP c \<Rightarrow> (case lookup (chunks h) c of None \<Rightarrow> Inl Undefined | Some C \<Rightarrow> Inr (c_payload C))
      | _ \<Rightarrow> Inl Undefined)"

definition store :: "ptr \<Rightarrow> nat \<Rightarrow> byte option list \<Rightarrow> heap \<Rightarrow> error + heap" where
  "store p off bs h =
     (case p of
        MemP c \<Rightarrow>
          (case lookup (chunks h) c of
             None \<Rightarrow> Inl Undefined
           | Some C \<Rightarrow>
               if off + length bs \<le> length (c_payload C)
               then Inr (h\<lparr>chunks := upd (chunks h) c
                          (C\<lparr>c_payload := take off (c_payload C) @ bs @
                                drop (off + length bs) (c_payload C)\<rparr>)\<rparr>)
               else Inl Undefined)
      | _ \<Rightarrow> Inl Undefined)"

text \<open>
  \<^verbatim>\<open>memcpy(dst, src, n)\<close> between two payloads: \<open>n\<close> bytes are read from the source,
  initialised or not, and written to the destination.
\<close>

definition memcpy :: "ptr \<Rightarrow> ptr \<Rightarrow> nat \<Rightarrow> heap \<Rightarrow> error + heap" where
  "memcpy dst src n h =
     and_then (load h src) (\<lambda>S.
       if n \<le> length S then store dst 0 (take n S) h else Inl Undefined)"

definition set_next :: "addr option \<Rightarrow> addr option \<Rightarrow> heap \<Rightarrow> error + heap" where
  "set_next p v h =
     and_then (deref_chunk h p) (\<lambda>(c, C). Inr (h\<lparr>chunks := upd (chunks h) c (C\<lparr>c_next := v\<rparr>)\<rparr>))"

definition set_prev :: "addr option \<Rightarrow> addr option \<Rightarrow> heap \<Rightarrow> error + heap" where
  "set_prev p v h =
     and_then (deref_chunk h p) (\<lambda>(c, C). Inr (h\<lparr>chunks := upd (chunks h) c (C\<lparr>c_prev := v\<rparr>)\<rparr>))"

definition set_last :: "addr option \<Rightarrow> addr option \<Rightarrow> heap \<Rightarrow> error + heap" where
  "set_last p v h =
     and_then (deref_mgr h p) (\<lambda>(m, M). Inr (h\<lparr>mgrs := upd (mgrs h) m (M\<lparr>m_last := v\<rparr>)\<rparr>))"

definition sub_totalloc :: "addr option \<Rightarrow> nat \<Rightarrow> heap \<Rightarrow> error + heap" where
  "sub_totalloc p n h =
     and_then (deref_mgr h p) (\<lambda>(m, M).
       Inr (h\<lparr>mgrs := upd (mgrs h) m (M\<lparr>m_totalloc := m_totalloc M - n\<rparr>)\<rparr>))"

text \<open>
  \<^verbatim>\<open>mmatic_freeptr_(memptr)\<close> (a name cannot end in an underscore here); the result is the new value of \<^verbatim>\<open>*memptr\<close> and the heap.
  \<^verbatim>\<open>munmap\<close> and \<^verbatim>\<open>free\<close> both empty the slot of the chunk.
\<close>

definition mmatic_freeptr :: "ptr \<Rightarrow> heap \<Rightarrow> error + ptr \<times> heap" where
  "mmatic_freeptr mem h =
     (case mem of
        MemP chunk \<Rightarrow>
          (case lookup (chunks h) chunk of
             None \<Rightarrow> Inl Die
           | Some C \<Rightarrow>
               if c_tag C \<noteq> TAG_CHUNK then Inl Die
               else
                 and_then (set_next (c_prev C) (c_next C) h) (\<lambda>h1.
                 and_then (if c_next C \<noteq> None then set_prev (c_next C) (c_prev C) h1
                           else set_last (c_mgr C) (c_prev C) h1) (\<lambda>h2.
                 and_then (sub_totalloc (c_mgr C) (c_alloc C) h2) (\<lambda>h3.
                   Inr (Null, h3\<lparr>chunks := del (chunks h3) chunk\<rparr>)))))
      | _ \<Rightarrow> Inl Die)"

text \<open>
  \<^verbatim>\<open>mmatic_realloc_(mem, size, mgr_or_mem, cfile, cline)\<close>. A null \<^verbatim>\<open>mgr_or_mem\<close> is
  replaced by the manager of the chunk, a zero \<^verbatim>\<open>size\<close> by the size of the chunk.
\<close>

definition mmatic_realloc :: "ptr \<Rightarrow> nat \<Rightarrow> ptr \<Rightarrow> heap \<Rightarrow> error + ptr \<times> heap" where
  "mmatic_realloc mem sz mgr_or_mem h =
     (case mem of
        MemP chunk \<Rightarrow>
          (case lookup (chunks h) chunk of
             None \<Rightarrow> Inl Die
           | Some C \<Rightarrow>
               if c_tag C \<noteq> TAG_CHUNK then Inl Die
               else
                 let mgr_or_mem' =
                       (if mgr_or_mem = Null
                        then (case c_mgr C of None \<Rightarrow> Null | Some m \<Rightarrow> MgrP m)
                        else mgr_or_mem);
                     sz' = (if sz = 0 then c_alloc C else sz)
                 in
                 and_then (mmatic_allocate sz' mgr_or_mem' False (c_shared C) h) (\<lambda>(newmem, h1).
                 and_then (memcpy newmem mem (c_alloc C) h1) (\<lambda>h2.
                 and_then (mmatic_freeptr mem h2) (\<lambda>(_, h3).
                   Inr (newmem, h3)))))
      | _ \<Rightarrow> Inl Die)"

text \<open>
  The loop of \<^verbatim>\<open>mmatic_summary\<close>: from \<^verbatim>\<open>mgr->first->next\<close> along the \<^verbatim>\<open>next\<close>
  pointers until \<^verbatim>\<open>NULL\<close>, collecting the chunks it visits. The fuel is the number of
  slots of the chunk store, which bounds every walk that does not run in a cycle.
\<close>

definition next_of :: "heap \<Rightarrow> addr \<Rightarrow> addr option" where
  "next_of h c = (case lookup (chunks h) c of None \<Rightarrow> None | Some C \<Rightarrow> c_next C)"

definition prev_of :: "heap \<Rightarrow> addr \<Rightarrow> addr option" where
  "prev_of h c = (case lookup (chunks h) c of None \<Rightarrow> None | Some C \<Rightarrow> c_prev C)"

definition alloc_of :: "heap \<Rightarrow> addr \<Rightarrow> nat" where
  "alloc_of h c = (case lookup (chunks h) c of None \<Rightarrow> 0 | Some C \<Rightarrow> c_alloc C)"

definition shared_of :: "heap \<Rightarrow> addr \<Rightarrow> bool" where
  "shared_of h c = (case lookup (chunks h) c of None \<Rightarrow> False | Some C \<Rightarrow> c_shared C)"

fun walk :: "(addr \<Rightarrow> addr option) \<Rightarrow> nat \<Rightarrow> addr option \<Rightarrow> addr list" where
  "walk nx 0 p = []"
| "walk nx (Suc k) p = (case p of None \<Rightarrow> [] | Some c \<Rightarrow> c # walk nx k (nx c))"

definition traverse :: "heap \<Rightarrow> addr \<Rightarrow> addr list" where
  "traverse h m =
     (case lookup (mgrs h) m of
        None \<Rightarrow> []
      | Some M \<Rightarrow>
          (case m_first M of
             None \<Rightarrow> []
           | Some f \<Rightarrow> walk (next_of h) (length (chunks h)) (next_of h f)))"


section \<open>C strings\<close>

text \<open>
  A string argument (\<^verbatim>\<open>const char *\<close>) is \<open>None\<close> for a null pointer and otherwise
  the list of the bytes at the pointer; a terminator follows the last byte of the list,
  as it does for a string literal, and the list itself may contain null bytes.
  \<open>cstr s\<close> is what the string functions of C see of it: the bytes before the first
  null byte.
\<close>

definition cstr :: "byte list \<Rightarrow> byte list" where
  "cstr s = takeWhile (\<lambda>b. b \<noteq> 0) s"

text \<open>
  The string a payload holds from its first byte on: the initialised bytes before the
  first null byte. There is none when an uninitialised byte or the end of the payload
  comes first; C leaves reading such a string undefined.
\<close>

fun c_str :: "byte option list \<Rightarrow> byte list option" where
  "c_str [] = None"
| "c_str (None # bs) = None"
| "c_str (Some b # bs) = (if b = 0 then Some [] else map_option ((#) b) (c_str bs))"

text \<open>\<^verbatim>\<open>strcpy(dst, src)\<close> with both pointers into payloads.\<close>

definition strcpy :: "ptr \<Rightarrow> ptr \<Rightarrow> heap \<Rightarrow> error + heap" where
  "strcpy dst src h =
     and_then (load h src) (\<lambda>S.
       case c_str S of
         None \<Rightarrow> Inl Undefined
       | Some str \<Rightarrow> store dst 0 (map Some (str @ [0])) h)"

text \<open>
  \<^verbatim>\<open>strcpy\<close>, \<^verbatim>\<open>strcat\<close>, \<^verbatim>\<open>strncat\<close> and \<^verbatim>\<open>strncpy\<close> from a string argument
  into a payload. \<^verbatim>\<open>strncpy\<close> stops reading at the first null byte of the source and
  fills the rest of the \<open>n\<close> bytes with null bytes; it writes no terminator of its own
  when the source has \<open>n\<close> characters or more.
\<close>

definition strcpy_arg :: "ptr \<Rightarrow> byte list \<Rightarrow> heap \<Rightarrow> error + heap" where
  "strcpy_arg dst s h = store dst 0 (map Some (cstr s @ [0])) h"

definition strcat_arg :: "ptr \<Rightarrow> byte list \<Rightarrow> heap \<Rightarrow> error + heap" where
  "strcat_arg dst s h =
     and_then (load h dst) (\<lambda>D.
       case c_str D of
         None \<Rightarrow> Inl Undefined
       | Some d \<Rightarrow> store dst (length d) (map Some (cstr s @ [0])) h)"

definition strncat_arg :: "ptr \<Rightarrow> byte list \<Rightarrow> nat \<Rightarrow> heap \<Rightarrow> error + heap" where
  "strncat_arg dst s n h =
     and_then (load h dst) (\<lambda>D.
       case c_str D of
         None \<Rightarrow> Inl Undefined
       | Some d \<Rightarrow> store dst (length d) (map Some (take n (cstr s) @ [0])) h)"

definition strncpy_arg :: "ptr \<Rightarrow> byte list \<Rightarrow> nat \<Rightarrow> heap \<Rightarrow> error + heap" where
  "strncpy_arg dst s n h =
     store dst 0 (map Some (take n (cstr s) @ replicate (n - length (cstr s)) 0)) h"

text \<open>
  \<^verbatim>\<open>vsnprintf(p + off, n, format, args)\<close>, where \<open>out\<close> is the text the format and its
  arguments expand to: at most \<open>n - 1\<close> bytes of it and a terminator are written, nothing
  at all when \<open>n\<close> is zero, and the result is the length of the whole text.
\<close>

definition vsnprintf :: "ptr \<Rightarrow> nat \<Rightarrow> nat \<Rightarrow> byte list \<Rightarrow> heap \<Rightarrow> error + int \<times> heap" where
  "vsnprintf p off n out h =
     (if n = 0 then Inr (int (length out), h)
      else and_then (store p off (map Some (take (n - 1) out @ [0])) h) (\<lambda>h'.
             Inr (int (length out), h')))"

text \<open>\<^verbatim>\<open>isgraph\<close> in the C locale: the printing characters except the space.\<close>

definition isgraph :: "byte \<Rightarrow> bool" where
  "isgraph b = (0x21 \<le> b \<and> b \<le> 0x7E)"

section \<open>xstr.c\<close>

text \<open>
  \<^verbatim>\<open>struct xstr\<close>: the string \<^verbatim>\<open>s\<close>, its length \<^verbatim>\<open>len\<close>, the allocated capacity
  \<^verbatim>\<open>a\<close> and the manager \<^verbatim>\<open>mm\<close>. The functions take the structure and return it
  updated.
\<close>

record xstr =
  x_s :: ptr
  x_len :: nat
  x_a :: nat
  x_mm :: ptr

text \<open>
  Modelled from the spec: the macros \<^verbatim>\<open>mmatic_alloc\<close> (behind \<^verbatim>\<open>xmmalloc\<close> and
  \<^verbatim>\<open>mmalloc\<close>) and \<^verbatim>\<open>mmfreeptr\<close> of \<^verbatim>\<open>lib.h\<close>, which is not part of the sources. The
  first allocates a chunk on the heap, neither zero-filled nor shared, under the given
  manager; the second is \<^verbatim>\<open>mmatic_freeptr_\<close> on the address of its argument.
\<close>

definition mmatic_alloc :: "nat \<Rightarrow> ptr \<Rightarrow> heap \<Rightarrow> error + ptr \<times> heap" where
  "mmatic_alloc sz mgr h = mmatic_allocate sz mgr False False h"

definition mmfreeptr :: "ptr \<Rightarrow> heap \<Rightarrow> error + ptr \<times> heap" where
  "mmfreeptr mem h = mmatic_freeptr mem h"

definition xstr_reserve :: "xstr \<Rightarrow> nat \<Rightarrow> heap \<Rightarrow> error + xstr \<times> heap" where
  "xstr_reserve xs l h =
     (if x_a xs > l then Inr (xs, h)
      else
        and_then (mmatic_alloc (l + 1) (x_mm xs) h) (\<lambda>(new_str, h1).
          if x_s xs \<noteq> Null then
            and_then (strcpy new_str (x_s xs) h1) (\<lambda>h2.
            and_then (mmfreeptr (x_s xs) h2) (\<lambda>(_, h3).
              Inr (xs\<lparr>x_s := new_str, x_a := l\<rparr>, h3)))
          else
            and_then (store new_str 0 [Some 0] h1) (\<lambda>h2.
              Inr (xs\<lparr>x_s := new_str, x_len := 0, x_a := l\<rparr>, h2))))"

definition xstr_append :: "xstr \<Rightarrow> byte list option \<Rightarrow> heap \<Rightarrow> error + xstr \<times> heap" where
  "xstr_append sx s h =
     (case s of
        None \<Rightarrow> Inr (sx, h)
      | Some str \<Rightarrow>
          if length (cstr str) = 0 then Inr (sx, h)
          else
            let slen = length (cstr str) + x_len sx in
            and_then (xstr_reserve sx slen h) (\<lambda>(sx1, h1).
            and_then (strcat_arg (x_s sx1) str h1) (\<lambda>h2.
              Inr (sx1\<lparr>x_len := slen\<rparr>, h2))))"

text \<open>
  \<^verbatim>\<open>xstr_append_size(sx, s, size)\<close>. The count is an \<^verbatim>\<open>int\<close>, and only the count 0
  is turned away. \<^verbatim>\<open>xstr_reserve\<close> and \<^verbatim>\<open>strncat\<close> take a \<^verbatim>\<open>size_t\<close>: a negative
  count reaches \<^verbatim>\<open>strncat\<close> as a number larger than the length of any string, so that
  the whole source is appended, while the length \<^verbatim>\<open>slen\<close> that is reserved and stored
  is lower than the length before. A negative \<^verbatim>\<open>slen\<close> reaches \<^verbatim>\<open>xstr_reserve\<close> as
  \<^verbatim>\<open>SIZE_MAX + 1 + slen\<close>: the block of one byte more is empty for \<^verbatim>\<open>slen = -1\<close>,
  and the terminator is written past it; for a lower \<^verbatim>\<open>slen\<close> it exceeds every block
  there is, the size of header and payload wraps around or the allocation is refused.
  No buffer results in either case, and the model has the one value \<open>Undefined\<close> there.
\<close>

definition xstr_append_size :: "xstr \<Rightarrow> byte list option \<Rightarrow> int \<Rightarrow> heap \<Rightarrow> error + xstr \<times> heap" where
  "xstr_append_size sx s sz h =
     (case s of
        None \<Rightarrow> Inr (sx, h)
      | Some str \<Rightarrow>
          if sz = 0 then Inr (sx, h)
          else
            let slen = int (x_len sx) + sz in
            if slen < 0 then Inl Undefined
            else
              and_then (xstr_reserve sx (nat slen) h) (\<lambda>(sx1, h1).
              and_then (if sz < 0 then strcat_arg (x_s sx1) str h1
                        else strncat_arg (x_s sx1) str (nat sz) h1) (\<lambda>h2.
                Inr (sx1\<lparr>x_len := nat slen\<rparr>, h2))))"

text \<open>
  \<^verbatim>\<open>xstr_append_char\<close>. The statement
  \<^verbatim>\<open>if (sx->len + 2 >= sx->a);\<close> ends at its semicolon, so that its condition guards
  nothing and the call of \<^verbatim>\<open>xstr_reserve\<close> below it is made on every path. The
  argument \<^verbatim>\<open>MAX(sx->len + 2, 1.5 * sx->len)\<close> is a \<^verbatim>\<open>double\<close> that the call
  truncates to \<^verbatim>\<open>size_t\<close>: the larger of \<open>len + 2\<close> and \<open>3 * len div 2\<close>.
\<close>

definition xstr_append_char :: "xstr \<Rightarrow> byte \<Rightarrow> heap \<Rightarrow> error + xstr \<times> heap" where
  "xstr_append_char sx c h =
     (if c = 0 then Inr (sx, h)
      else
        and_then (xstr_reserve sx (max (x_len sx + 2) (3 * x_len sx div 2)) h) (\<lambda>(sx1, h1).
        and_then (store (x_s sx1) (x_len sx1) [Some c] h1) (\<lambda>h2.
        let sx2 = sx1\<lparr>x_len := x_len sx1 + 1\<rparr> in
        and_then (store (x_s sx2) (x_len sx2) [Some 0] h2) (\<lambda>h3.
          Inr (sx2, h3)))))"

definition xstr_set :: "xstr \<Rightarrow> byte list option \<Rightarrow> heap \<Rightarrow> error + xstr \<times> heap" where
  "xstr_set xs s h =
     (case s of
        None \<Rightarrow> Inl Undefined
      | Some str \<Rightarrow>
          let l = length (cstr str) in
          and_then (xstr_reserve xs l h) (\<lambda>(xs1, h1).
          and_then (strcpy_arg (x_s xs1) str h1) (\<lambda>h2.
            Inr (xs1\<lparr>x_len := l\<rparr>, h2))))"

text \<open>
  \<^verbatim>\<open>xstr_set_size(xs, s, size)\<close>. The count is an \<^verbatim>\<open>int\<close> and is not tested. A
  negative count reaches \<^verbatim>\<open>xstr_reserve\<close> and \<^verbatim>\<open>strncpy\<close> as
  \<^verbatim>\<open>SIZE_MAX + 1 + size\<close> (see \<^verbatim>\<open>xstr_append_size\<close>), and the last statement writes
  \<^verbatim>\<open>xs->s[size]\<close> in front of the storage: the call is undefined.
\<close>

definition xstr_set_size :: "xstr \<Rightarrow> byte list option \<Rightarrow> int \<Rightarrow> heap \<Rightarrow> error + xstr \<times> heap" where
  "xstr_set_size xs s sz h =
     (if sz < 0 then Inl Undefined
      else
        and_then (xstr_reserve xs (nat sz) h) (\<lambda>(xs1, h1).
          case s of
            None \<Rightarrow> Inl Undefined
          | Some str \<Rightarrow>
              and_then (strncpy_arg (x_s xs1) str (nat sz) h1) (\<lambda>h2.
              let xs2 = xs1\<lparr>x_len := nat sz\<rparr> in
              and_then (store (x_s xs2) (nat sz) [Some 0] h2) (\<lambda>h3.
                Inr (xs2, h3)))))"

definition xstr_free :: "xstr \<Rightarrow> heap \<Rightarrow> error + xstr \<times> heap" where
  "xstr_free xs h =
     (if x_s xs \<noteq> Null then
        and_then (mmfreeptr (x_s xs) h) (\<lambda>(_, h1).
          Inr (xs\<lparr>x_s := Null, x_len := 0, x_a := 0\<rparr>, h1))
      else Inr (xs, h))"

text \<open>
  \<^verbatim>\<open>xstr_init_val(sx, ch, mm)\<close> overwrites every field of \<^verbatim>\<open>*sx\<close> before it calls
  \<^verbatim>\<open>xstr_set\<close>, so the model builds the structure instead of taking it.
\<close>

definition xstr_init_val :: "byte list option \<Rightarrow> ptr \<Rightarrow> heap \<Rightarrow> error + xstr \<times> heap" where
  "xstr_init_val ch mm h = xstr_set \<lparr>x_s = Null, x_len = 0, x_a = 0, x_mm = mm\<rparr> ch h"

definition xstr_init :: "ptr \<Rightarrow> heap \<Rightarrow> error + xstr \<times> heap" where
  "xstr_init mm h = xstr_init_val (Some []) mm h"

text \<open>
  \<^verbatim>\<open>xstr_create(str, mm)\<close>: the structure itself is a chunk of the manager, of
  \<^verbatim>\<open>sizeof(xstr)\<close> bytes, a number that \<^verbatim>\<open>lib.h\<close> determines and the model takes as
  an argument. The result is the pointer to the structure and the structure.
\<close>

definition xstr_create :: "nat \<Rightarrow> byte list option \<Rightarrow> ptr \<Rightarrow> heap \<Rightarrow> error + (ptr \<times> xstr) \<times> heap" where
  "xstr_create sizeof_xstr str mm h =
     and_then (mmatic_alloc sizeof_xstr mm h) (\<lambda>(new, h1).
     and_then (xstr_init_val (case str of None \<Rightarrow> Some [] | Some s \<Rightarrow> Some s) mm h1) (\<lambda>(xs, h2).
       Inr ((new, xs), h2)))"

definition xstr_to_char :: "xstr \<Rightarrow> ptr" where
  "xstr_to_char sx = x_s sx"

text \<open>
  The three loops of \<^verbatim>\<open>xstr_strip\<close>, with \<^verbatim>\<open>int\<close> counters. \<open>peek mem i\<close> is the
  character \<^verbatim>\<open>s[i]\<close>; there is none outside of the payload and where the payload is
  uninitialised.
\<close>

definition peek :: "byte option list \<Rightarrow> int \<Rightarrow> byte option" where
  "peek mem i = (if 0 \<le> i \<and> nat i < length mem then mem ! nat i else None)"

function strip_fwd :: "byte option list \<Rightarrow> int \<Rightarrow> int \<Rightarrow> int option" where
  "strip_fwd mem len i =
     (if i < len
      then (case peek mem i of
              None \<Rightarrow> None
            | Some b \<Rightarrow> if isgraph b then Some i else strip_fwd mem len (i + 1))
      else Some i)"
  by pat_completeness auto
termination
  by (relation "measure (\<lambda>(mem, len, i). nat (len - i))") auto

function strip_bwd :: "byte option list \<Rightarrow> int \<Rightarrow> int \<Rightarrow> int option" where
  "strip_bwd mem i j =
     (if j \<ge> i
      then (case peek mem j of
              None \<Rightarrow> None
            | Some b \<Rightarrow> if isgraph b then Some j else strip_bwd mem i (j - 1))
      else Some j)"
  by pat_completeness auto
termination
  by (relation "measure (\<lambda>(mem, i, j). nat (j - i + 1))") auto

text \<open>
  The third loop writes \<^verbatim>\<open>ret[0]\<close>, \<^verbatim>\<open>ret[1]\<close>, ... in turn; \<open>strip_copy\<close> collects
  the characters it reads, and \<open>xstr_strip\<close> stores them with the terminator that
  follows the loop.
\<close>

function strip_copy :: "byte option list \<Rightarrow> int \<Rightarrow> int \<Rightarrow> byte list option" where
  "strip_copy mem i j =
     (if i < j + 1
      then (case peek mem i of
              None \<Rightarrow> None
            | Some b \<Rightarrow> map_option ((#) b) (strip_copy mem (i + 1) j))
      else Some [])"
  by pat_completeness auto
termination
  by (relation "measure (\<lambda>(mem, i, j). nat (j + 1 - i))") auto

definition xstr_strip :: "xstr \<Rightarrow> heap \<Rightarrow> error + ptr \<times> heap" where
  "xstr_strip xs h =
     and_then (load h (x_s xs)) (\<lambda>mem.
       case strip_fwd mem (int (x_len xs)) 0 of
         None \<Rightarrow> Inl Undefined
       | Some i \<Rightarrow>
           (case strip_bwd mem i (int (x_len xs)) of
              None \<Rightarrow> Inl Undefined
            | Some j \<Rightarrow>
                if j - i + 2 < 0 then Inl Die
                else
                  and_then (mmatic_alloc (nat (j - i + 2)) (x_mm xs) h) (\<lambda>(ret, h1).
                  and_then (load h1 (x_s xs)) (\<lambda>mem1.
                    case strip_copy mem1 i j of
                      None \<Rightarrow> Inl Undefined
                    | Some bs \<Rightarrow>
                        and_then (store ret 0 (map Some (bs @ [0])) h1) (\<lambda>h2.
                          Inr (ret, h2))))))"

text \<open>
  \<^verbatim>\<open>xstr_set_format\<close> and \<^verbatim>\<open>xstr_append_format\<close>, with the expansions of the format
  in place of the format and its arguments. Both functions call \<^verbatim>\<open>vsnprintf\<close> twice
  and hand it the same \<^verbatim>\<open>va_list\<close> both times, with no \<^verbatim>\<open>va_copy\<close> and no second
  \<^verbatim>\<open>va_start\<close> between the calls. A format without conversions expands to the same
  text in both calls. When the first call has consumed arguments, what the second call
  finds in their place is not determined by the caller (where a \<^verbatim>\<open>va_list\<close> is an
  array, the second call goes on behind the arguments the first one consumed). The
  model therefore takes two texts: \<open>out1\<close>, what the format expands to in the first
  call, which only measures it, and \<open>out2\<close>, what it expands to in the second call,
  which writes it. The result is the returned \<^verbatim>\<open>int\<close> and the structure. In
  \<^verbatim>\<open>xstr_append_format\<close> the size passed to the second \<^verbatim>\<open>vsnprintf\<close> is
  \<^verbatim>\<open>xs->a - xs->len + 1\<close>, which is not a size when the length exceeds the capacity.
\<close>

definition xstr_set_format :: "xstr \<Rightarrow> byte list \<Rightarrow> byte list \<Rightarrow> heap \<Rightarrow> error + (int \<times> xstr) \<times> heap" where
  "xstr_set_format xs out1 out2 h =
     and_then (vsnprintf Null 0 0 out1 h) (\<lambda>(len, _).
     and_then (xstr_reserve xs (nat len) h) (\<lambda>(xs1, h1).
     and_then (vsnprintf (x_s xs1) 0 (x_a xs1 + 1) out2 h1) (\<lambda>(r, h2).
       let len' = (if r \<noteq> len then - 1 else len) in
       Inr ((len', if len' > 0 then xs1\<lparr>x_len := nat len'\<rparr> else xs1), h2))))"

definition xstr_append_format :: "xstr \<Rightarrow> byte list \<Rightarrow> byte list \<Rightarrow> heap \<Rightarrow> error + (int \<times> xstr) \<times> heap" where
  "xstr_append_format xs out1 out2 h =
     and_then (vsnprintf Null 0 0 out1 h) (\<lambda>(len, _).
     and_then (xstr_reserve xs (x_len xs + nat len) h) (\<lambda>(xs1, h1).
       if x_a xs1 < x_len xs1 then Inl Undefined
       else
         and_then (vsnprintf (x_s xs1) (x_len xs1) (x_a xs1 - x_len xs1 + 1) out2 h1) (\<lambda>(r, h2).
           let len' = (if r \<noteq> len then - 1 else len) in
           Inr ((len', if len' > 0 then xs1\<lparr>x_len := x_len xs1 + nat len'\<rparr> else xs1), h2))))"

section \<open>The invariant of a manager\<close>

text \<open>
  The live chunks of a manager are the slots of the chunk store that carry the chunk
  tag and name the manager, in the order of their addresses, which is the order in
  which they were allocated.
\<close>

definition is_chunk_of :: "heap \<Rightarrow> addr \<Rightarrow> addr \<Rightarrow> bool" where
  "is_chunk_of h m c =
     (case lookup (chunks h) c of None \<Rightarrow> False | Some C \<Rightarrow> c_tag C = TAG_CHUNK \<and> c_mgr C = Some m)"

definition is_sentinel_of :: "heap \<Rightarrow> addr \<Rightarrow> addr \<Rightarrow> bool" where
  "is_sentinel_of h m c =
     (case lookup (chunks h) c of None \<Rightarrow> False | Some C \<Rightarrow> c_tag C \<noteq> TAG_CHUNK \<and> c_mgr C = Some m)"

definition live_chunks :: "heap \<Rightarrow> addr \<Rightarrow> addr list" where
  "live_chunks h m = filter (is_chunk_of h m) [0..<length (chunks h)]"

definition sized :: "heap \<Rightarrow> addr \<Rightarrow> bool" where
  "sized h c =
     (case lookup (chunks h) c of None \<Rightarrow> False | Some C \<Rightarrow> length (c_payload C) = c_alloc C)"

text \<open>\<open>path nx pv cs\<close>: each chunk of \<open>cs\<close> is linked to the one after it, in both directions.\<close>

fun path :: "(addr \<Rightarrow> addr option) \<Rightarrow> (addr \<Rightarrow> addr option) \<Rightarrow> addr list \<Rightarrow> bool" where
  "path nx pv (a # b # r) = (nx a = Some b \<and> pv b = Some a \<and> path nx pv (b # r))"
| "path nx pv [a] = True"
| "path nx pv [] = True"

text \<open>
  The sentinel followed by the live chunks is a doubly linked list that ends with a
  null \<^verbatim>\<open>next\<close>; \<^verbatim>\<open>last\<close> is its last element; \<^verbatim>\<open>totalloc\<close> is the sum of the
  sizes of the live chunks; each payload has the size its header records.
\<close>

definition mgr_inv :: "heap \<Rightarrow> addr \<Rightarrow> bool" where
  "mgr_inv h m =
     (case lookup (mgrs h) m of
        None \<Rightarrow> False
      | Some M \<Rightarrow>
          m_tag M = TAG_MGR \<and>
          (case m_first M of
             None \<Rightarrow> False
           | Some f \<Rightarrow>
               is_sentinel_of h m f \<and>
               path (next_of h) (prev_of h) (f # live_chunks h m) \<and>
               next_of h (last (f # live_chunks h m)) = None \<and>
               m_last M = Some (last (f # live_chunks h m)) \<and>
               m_totalloc M = sum_list (map (alloc_of h) (live_chunks h m)) \<and>
               list_all (sized h) (live_chunks h m)))"

definition owned :: "heap \<Rightarrow> addr \<Rightarrow> bool" where
  "owned h c =
     (case lookup (chunks h) c of
        None \<Rightarrow> True
      | Some C \<Rightarrow> (case c_mgr C of None \<Rightarrow> False | Some m \<Rightarrow> m < length (mgrs h)))"

text \<open>
  The invariant of the heap: every manager satisfies its invariant, and every block of
  the chunk store names a manager.
\<close>

definition heap_inv :: "heap \<Rightarrow> bool" where
  "heap_inv h =
     (list_all (mgr_inv h) [0..<length (mgrs h)] \<and>
      list_all (owned h) [0..<length (chunks h)])"

section \<open>The invariant of a string buffer\<close>

text \<open>
  What the specification states of a buffer: the capacity is at least the length, and
  the storage, when there is one, holds a string of exactly \<^verbatim>\<open>len\<close> characters and
  its terminator.
\<close>

definition xstr_ok :: "heap \<Rightarrow> xstr \<Rightarrow> bool" where
  "xstr_ok h xs =
     (x_len xs \<le> x_a xs \<and>
      (x_s xs = Null \<or>
       (case load h (x_s xs) of
          Inl e \<Rightarrow> False
        | Inr mem \<Rightarrow> (case c_str mem of None \<Rightarrow> False | Some str \<Rightarrow> length str = x_len xs))))"

text \<open>
  The string in the storage of a buffer, if there is one, and the characters a buffer
  holds: those of that string, and none when there is no storage.
\<close>

definition content :: "heap \<Rightarrow> xstr \<Rightarrow> byte list option" where
  "content h xs = (case load h (x_s xs) of Inl e \<Rightarrow> None | Inr mem \<Rightarrow> c_str mem)"

definition text_of :: "heap \<Rightarrow> xstr \<Rightarrow> byte list" where
  "text_of h xs = (case content h xs of None \<Rightarrow> [] | Some str \<Rightarrow> str)"

text \<open>
  Following the specification of \<^verbatim>\<open>strip\<close>: the leading and the trailing
  characters that \<^verbatim>\<open>isgraph\<close> rejects are removed.
\<close>

definition trim_end :: "byte list \<Rightarrow> byte list" where
  "trim_end str = rev (dropWhile (\<lambda>b. \<not> isgraph b) (rev str))"

definition strip_spec :: "byte list \<Rightarrow> byte list" where
  "strip_spec str = trim_end (dropWhile (\<lambda>b. \<not> isgraph b) str)"

text \<open>
  The invariant the functions rely on and keep: the heap is well formed, \<^verbatim>\<open>mm\<close> is a
  manager, and the storage is a live chunk of \<^verbatim>\<open>a + 1\<close> bytes that holds a string of
  \<^verbatim>\<open>len\<close> characters, or it is null and \<^verbatim>\<open>len\<close> and \<^verbatim>\<open>a\<close> are zero, as
  \<^verbatim>\<open>xstr_init_val\<close> and \<^verbatim>\<open>xstr_free\<close> leave them.
\<close>

definition xstr_inv :: "heap \<Rightarrow> xstr \<Rightarrow> bool" where
  "xstr_inv h xs =
     (heap_inv h \<and> x_len xs \<le> x_a xs \<and>
      (case x_mm xs of MgrP m \<Rightarrow> m < length (mgrs h) | _ \<Rightarrow> False) \<and>
      (case x_s xs of
         Null \<Rightarrow> x_len xs = 0 \<and> x_a xs = 0
       | MgrP m \<Rightarrow> False
       | MemP c \<Rightarrow>
           IS_CHUNK h c \<and>
           (case load h (MemP c) of
              Inl e \<Rightarrow> False
            | Inr mem \<Rightarrow>
                length mem = x_a xs + 1 \<and>
                (case c_str mem of None \<Rightarrow> False | Some str \<Rightarrow> length str = x_len xs))))"

section \<open>What the specification states of a manager\<close>

text \<open>
  The chunk list traversed from the sentinel is the list of the live chunks in the
  order of allocation, the tail reference is the last chunk of the traversal (the
  sentinel when there is none), and the running total is the sum of the payload sizes
  of the chunks traversed.
\<close>

definition mgr_ok :: "heap \<Rightarrow> addr \<Rightarrow> bool" where
  "mgr_ok h m =
     (case lookup (mgrs h) m of
        None \<Rightarrow> False
      | Some M \<Rightarrow>
          (case m_first M of
             None \<Rightarrow> False
           | Some f \<Rightarrow>
               traverse h m = live_chunks h m \<and>
               m_last M = Some (last (f # traverse h m)) \<and>
               m_totalloc M = sum_list (map (alloc_of h) (traverse h m))))"

section \<open>Example states\<close>

definition the_heap :: "error + 'a \<times> heap \<Rightarrow> heap" where
  "the_heap r = (case r of Inl e \<Rightarrow> empty_heap | Inr (x, h) \<Rightarrow> h)"

text \<open>A manager with three chunks of 3, 5 and 2 bytes, at the addresses 1, 2 and 3.\<close>

definition heap3 :: heap where
  "heap3 =
     the_heap (mmatic_allocate 2 (MgrP 0) False False
    (the_heap (mmatic_allocate 5 (MgrP 0) True False
    (the_heap (mmatic_allocate 3 (MgrP 0) False False
    (snd (mmatic_create empty_heap)))))))"

text \<open>The same state after the bytes 1, 2, 3 have been written to the first chunk.\<close>

definition heap3p :: heap where
  "heap3p = (case store (MemP 1) 0 [Some 1, Some 2, Some 3] heap3 of Inl e \<Rightarrow> empty_heap | Inr h \<Rightarrow> h)"

text \<open>
  A buffer fresh from \<^verbatim>\<open>xstr_init\<close> under a new manager; the same buffer holding
  \<^verbatim>\<open>"abc"\<close>, holding \<^verbatim>\<open>"  hello  "\<close>, and holding eight characters in a
  storage reserved for eleven.
\<close>

definition the_xstr :: "error + xstr \<times> heap \<Rightarrow> xstr" where
  "the_xstr r =
     (case r of Inl e \<Rightarrow> \<lparr>x_s = Null, x_len = 0, x_a = 0, x_mm = Null\<rparr> | Inr (xs, h) \<Rightarrow> xs)"

definition buf0 :: "error + xstr \<times> heap" where
  "buf0 = xstr_init (MgrP 0) (snd (mmatic_create empty_heap))"

definition buf_abc :: "error + xstr \<times> heap" where
  "buf_abc = xstr_set (the_xstr buf0) (Some [97, 98, 99]) (the_heap buf0)"

definition buf_hello :: "error + xstr \<times> heap" where
  "buf_hello =
     xstr_set (the_xstr buf0) (Some [32, 32, 104, 101, 108, 108, 111, 32, 32]) (the_heap buf0)"

definition buf_roomy :: "error + xstr \<times> heap" where
  "buf_roomy =
     and_then (xstr_reserve (the_xstr buf0) 11 (the_heap buf0)) (\<lambda>(xs, h).
       xstr_set xs (Some [49, 50, 51, 52, 53, 54, 55, 56]) h)"

text \<open>A run of \<^verbatim>\<open>xstr_append_char\<close> over the characters of a list, in turn.\<close>

fun append_chars :: "xstr \<Rightarrow> byte list \<Rightarrow> heap \<Rightarrow> error + xstr \<times> heap" where
  "append_chars sx [] h = Inr (sx, h)"
| "append_chars sx (c # cs) h =
     and_then (xstr_append_char sx c h) (\<lambda>(sx', h'). append_chars sx' cs h')"

section \<open>Properties of stores\<close>

lemma lookup_new: "lookup (new st v) p = (if p = length st then Some v else lookup st p)"
  by (auto simp: lookup_def new_def nth_append)

lemma lookup_upd:
  "lookup (upd st p v) q = (if q = p \<and> p < length st then Some v else lookup st q)"
  by (auto simp: lookup_def upd_def)

lemma lookup_del: "lookup (del st p) q = (if q = p then None else lookup st q)"
  by (auto simp: lookup_def del_def)

lemma length_new: "length (new st v) = Suc (length st)"
  by (simp add: new_def)

lemma length_upd: "length (upd st p v) = length st"
  by (simp add: upd_def)

lemma length_del: "length (del st p) = length st"
  by (simp add: del_def)

lemma lookup_lt: "lookup st p = Some v \<Longrightarrow> p < length st"
  by (auto simp: lookup_def split: if_splits)

lemma lookup_length: "lookup st (length st) = None"
  by (simp add: lookup_def)

lemmas store_simps = lookup_new lookup_upd lookup_del length_new length_upd length_del lookup_length

section \<open>Allocation\<close>

lemma allocate_Inr:
  assumes "mmatic_allocate sz ow z sh h = Inr (p, h')"
  obtains m M l L where "owner_mgr h ow = Inr (Some m)" "lookup (mgrs h) m = Some M"
    "m_last M = Some l" "lookup (chunks h) l = Some L" "p = MemP (length (chunks h))"
    "h' = \<lparr>mgrs = upd (mgrs h) m (M\<lparr>m_last := Some (length (chunks h)), m_totalloc := m_totalloc M + sz\<rparr>),
           chunks = upd (new (chunks h)
               \<lparr>c_tag = TAG_CHUNK, c_shared = sh, c_alloc = sz, c_next = None,
                c_prev = Some l, c_mgr = Some m, c_payload = replicate sz (if sh \<or> z then Some 0 else None)\<rparr>)
               l (L\<lparr>c_next := Some (length (chunks h))\<rparr>)\<rparr>"
  using assms
  by (auto simp: mmatic_allocate_def and_then_def deref_mgr_def deref_chunk_def Let_def
      split: sum.splits option.splits prod.splits)


section \<open>Paths\<close>

lemma path_cong:
  "(\<And>a. a \<in> set (butlast xs) \<Longrightarrow> nx' a = nx a) \<Longrightarrow> (\<And>a. a \<in> set (tl xs) \<Longrightarrow> pv' a = pv a) \<Longrightarrow>
   path nx' pv' xs = path nx pv xs"
  by (induction nx pv xs rule: path.induct) auto

lemma path_snoc:
  "path nx pv (xs @ [a, b]) = (path nx pv (xs @ [a]) \<and> nx a = Some b \<and> pv b = Some a)"
  by (induction nx pv xs rule: path.induct) auto

lemma path_overlap:
  "path nx pv (xs @ y # ys) = (path nx pv (xs @ [y]) \<and> path nx pv (y # ys))"
  by (induction nx pv xs rule: path.induct) auto

lemma path_snoc':
  "xs \<noteq> [] \<Longrightarrow> path nx pv (xs @ [b]) = (path nx pv xs \<and> nx (last xs) = Some b \<and> pv b = Some (last xs))"
  by (cases xs rule: rev_cases) (simp_all add: path_snoc)

lemma walk_path:
  "path nx pv (f # cs) \<Longrightarrow> nx (last (f # cs)) = None \<Longrightarrow> length cs \<le> k \<Longrightarrow> walk nx k (nx f) = cs"
proof (induction cs arbitrary: f k)
  case Nil
  then show ?case by (cases k) auto
next
  case (Cons c cs)
  then show ?case by (cases k) auto
qed

section \<open>Live chunks\<close>

lemma is_chunk_of_lt: "is_chunk_of h m c \<Longrightarrow> c < length (chunks h)"
  by (auto simp: is_chunk_of_def dest: lookup_lt split: option.splits)

lemma set_live_chunks: "set (live_chunks h m) = {c. is_chunk_of h m c}"
  by (auto simp: live_chunks_def dest: is_chunk_of_lt)

lemma distinct_live_chunks: "distinct (live_chunks h m)"
  by (simp add: live_chunks_def)

lemma sorted_live_chunks: "sorted_wrt (<) (live_chunks h m)"
  by (simp add: live_chunks_def sorted_wrt_filter)

lemma length_live_chunks: "length (live_chunks h m) \<le> length (chunks h)"
  using length_filter_le [of "is_chunk_of h m" "[0..<length (chunks h)]"] by (simp add: live_chunks_def)

lemma sentinel_not_chunk: "is_sentinel_of h m f \<Longrightarrow> \<not> is_chunk_of h m' f"
  by (auto simp: is_sentinel_of_def is_chunk_of_def split: option.splits)

lemma live_chunks_eq:
  assumes "length (chunks h) \<le> length (chunks h')"
    and "\<And>a. a < length (chunks h') \<Longrightarrow> is_chunk_of h' m a = is_chunk_of h m a"
  shows "live_chunks h' m = live_chunks h m"
proof -
  have "[0..<length (chunks h')] = [0..<length (chunks h)] @ [length (chunks h)..<length (chunks h')]"
    using assms(1) by (metis le_add_diff_inverse upt_add_eq_append zero_le)
  moreover have "filter (is_chunk_of h' m) [length (chunks h)..<length (chunks h')] = []"
    using assms(2) by (auto simp: filter_empty_conv dest: is_chunk_of_lt)
  moreover have "filter (is_chunk_of h' m) [0..<length (chunks h)] = filter (is_chunk_of h m) [0..<length (chunks h)]"
    using assms by (intro filter_cong) auto
  ultimately show ?thesis by (simp add: live_chunks_def)
qed

lemma mgr_inv_frame:
  assumes inv: "mgr_inv h m"
    and mg: "lookup (mgrs h') m = lookup (mgrs h) m"
    and len: "length (chunks h) \<le> length (chunks h')"
    and live: "\<And>a. a < length (chunks h') \<Longrightarrow> is_chunk_of h' m a = is_chunk_of h m a"
    and nodes: "\<And>a. is_chunk_of h m a \<or> is_sentinel_of h m a \<Longrightarrow>
       next_of h' a = next_of h a \<and> prev_of h' a = prev_of h a \<and> alloc_of h' a = alloc_of h a \<and>
       sized h' a = sized h a \<and> is_sentinel_of h' m a = is_sentinel_of h m a"
  shows "mgr_inv h' m"
proof -
  have lc: "live_chunks h' m = live_chunks h m"
    using len live by (rule live_chunks_eq)
  obtain M f where M: "lookup (mgrs h) m = Some M" "m_tag M = TAG_MGR" "m_first M = Some f"
    and f: "is_sentinel_of h m f"
    and p: "path (next_of h) (prev_of h) (f # live_chunks h m)"
    and e: "next_of h (last (f # live_chunks h m)) = None"
    and l: "m_last M = Some (last (f # live_chunks h m))"
    and t: "m_totalloc M = sum_list (map (alloc_of h) (live_chunks h m))"
    and s: "list_all (sized h) (live_chunks h m)"
    using inv by (auto simp: mgr_inv_def split: option.splits)
  have n: "a \<in> set (f # live_chunks h m) \<Longrightarrow> is_chunk_of h m a \<or> is_sentinel_of h m a" for a
    using f by (auto simp: set_live_chunks)
  have 1: "path (next_of h') (prev_of h') (f # live_chunks h m) = path (next_of h) (prev_of h) (f # live_chunks h m)"
  proof (rule path_cong)
    fix a assume "a \<in> set (butlast (f # live_chunks h m))"
    then have "a \<in> set (f # live_chunks h m)" by (rule in_set_butlastD)
    then show "next_of h' a = next_of h a" using n nodes by blast
  next
    fix a assume "a \<in> set (tl (f # live_chunks h m))"
    then have "a \<in> set (f # live_chunks h m)" by simp
    then show "prev_of h' a = prev_of h a" using n nodes by blast
  qed
  have "last (f # live_chunks h m) \<in> set (f # live_chunks h m)"
    by (rule last_in_set) simp
  then have 2: "next_of h' (last (f # live_chunks h m)) = next_of h (last (f # live_chunks h m))"
    using n nodes by blast
  have 3: "map (alloc_of h') (live_chunks h m) = map (alloc_of h) (live_chunks h m)"
    using n nodes by (intro map_cong) auto
  have 4: "list_all (sized h') (live_chunks h m) = list_all (sized h) (live_chunks h m)"
    using n nodes by (auto simp: list_all_iff)
  have 5: "is_sentinel_of h' m f" using f nodes by blast
  show ?thesis
    using M p e l t s 5 by (simp add: mgr_inv_def mg lc 1 2 3 4 del: last.simps)
qed


lemma node_mgr_unique:
  "is_chunk_of h m a \<or> is_sentinel_of h m a \<Longrightarrow> is_chunk_of h m' a \<or> is_sentinel_of h m' a \<Longrightarrow> m = m'"
  by (auto simp: is_chunk_of_def is_sentinel_of_def split: option.splits)

lemma mgr_invE:
  assumes "mgr_inv h m"
  obtains M f where "lookup (mgrs h) m = Some M" "m_tag M = TAG_MGR" "m_first M = Some f"
    "is_sentinel_of h m f"
    "path (next_of h) (prev_of h) (f # live_chunks h m)"
    "next_of h (last (f # live_chunks h m)) = None"
    "m_last M = Some (last (f # live_chunks h m))"
    "m_totalloc M = sum_list (map (alloc_of h) (live_chunks h m))"
    "list_all (sized h) (live_chunks h m)"
  using assms by (auto simp: mgr_inv_def split: option.splits)

lemma mgr_inv_last_node:
  assumes "mgr_inv h m" "lookup (mgrs h) m = Some M" "m_last M = Some l"
  shows "is_chunk_of h m l \<or> is_sentinel_of h m l"
proof -
  from assms(1) obtain M' f where *: "lookup (mgrs h) m = Some M'" "is_sentinel_of h m f"
    "m_last M' = Some (last (f # live_chunks h m))"
    by (rule mgr_invE)
  have "last (f # live_chunks h m) \<in> set (f # live_chunks h m)"
    by (rule last_in_set) simp
  then show ?thesis
    using * assms(2,3) by (auto simp: set_live_chunks simp del: last.simps)
qed

lemma allocate_effect:
  assumes "mmatic_allocate sz ow z sh h = Inr (p, h')"
  obtains m M l where "owner_mgr h ow = Inr (Some m)" "lookup (mgrs h) m = Some M"
    "m_last M = Some l" "l < length (chunks h)" "p = MemP (length (chunks h))"
    "length (chunks h') = Suc (length (chunks h))" "length (mgrs h') = length (mgrs h)"
    "\<And>m'. lookup (mgrs h') m' =
       (if m' = m then Some (M\<lparr>m_last := Some (length (chunks h)), m_totalloc := m_totalloc M + sz\<rparr>)
        else lookup (mgrs h) m')"
    "\<And>m' a. is_chunk_of h' m' a = (if a = length (chunks h) then m' = m else is_chunk_of h m' a)"
    "\<And>m' a. is_sentinel_of h' m' a = (a \<noteq> length (chunks h) \<and> is_sentinel_of h m' a)"
    "\<And>a. next_of h' a =
       (if a = length (chunks h) then None else if a = l then Some (length (chunks h)) else next_of h a)"
    "\<And>a. prev_of h' a = (if a = length (chunks h) then Some l else prev_of h a)"
    "\<And>a. alloc_of h' a = (if a = length (chunks h) then sz else alloc_of h a)"
    "\<And>a. sized h' a = (a = length (chunks h) \<or> sized h a)"
    "\<And>a. owned h' a = (if a = length (chunks h) then m < length (mgrs h) else owned h a)"
    "\<And>a. load h' (MemP a) =
       (if a = length (chunks h) then Inr (replicate sz (if sh \<or> z then Some 0 else None))
        else load h (MemP a))"
    "\<And>a. IS_CHUNK h' a = (a = length (chunks h) \<or> IS_CHUNK h a)"
    "\<And>a. shared_of h' a = (if a = length (chunks h) then sh else shared_of h a)"
proof -
  from assms obtain m M l L where *: "owner_mgr h ow = Inr (Some m)" "lookup (mgrs h) m = Some M"
    "m_last M = Some l" "lookup (chunks h) l = Some L" "p = MemP (length (chunks h))"
    "h' = \<lparr>mgrs = upd (mgrs h) m (M\<lparr>m_last := Some (length (chunks h)), m_totalloc := m_totalloc M + sz\<rparr>),
           chunks = upd (new (chunks h)
               \<lparr>c_tag = TAG_CHUNK, c_shared = sh, c_alloc = sz, c_next = None,
                c_prev = Some l, c_mgr = Some m, c_payload = replicate sz (if sh \<or> z then Some 0 else None)\<rparr>)
               l (L\<lparr>c_next := Some (length (chunks h))\<rparr>)\<rparr>"
    by (rule allocate_Inr)
  note lt = lookup_lt [OF *(4)] lookup_lt [OF *(2)]
  show ?thesis
  proof (rule that [OF *(1,2,3) lt(1) *(5)])
    show "length (chunks h') = Suc (length (chunks h))" "length (mgrs h') = length (mgrs h)"
      by (simp_all add: * store_simps)
    show "lookup (mgrs h') m' =
       (if m' = m then Some (M\<lparr>m_last := Some (length (chunks h)), m_totalloc := m_totalloc M + sz\<rparr>)
        else lookup (mgrs h) m')" for m'
      using lt by (simp add: * store_simps)
    show "is_chunk_of h' m' a = (if a = length (chunks h) then m' = m else is_chunk_of h m' a)" for m' a
      using lt *(4) by (auto simp: *(6) is_chunk_of_def store_simps)
    show "is_sentinel_of h' m' a = (a \<noteq> length (chunks h) \<and> is_sentinel_of h m' a)" for m' a
      using lt *(4) by (auto simp: *(6) is_sentinel_of_def store_simps)
    show "next_of h' a =
       (if a = length (chunks h) then None else if a = l then Some (length (chunks h)) else next_of h a)" for a
      using lt *(4) by (auto simp: *(6) next_of_def store_simps)
    show "prev_of h' a = (if a = length (chunks h) then Some l else prev_of h a)" for a
      using lt *(4) by (auto simp: *(6) prev_of_def store_simps)
    show "alloc_of h' a = (if a = length (chunks h) then sz else alloc_of h a)" for a
      using lt *(4) by (auto simp: *(6) alloc_of_def store_simps)
    show "sized h' a = (a = length (chunks h) \<or> sized h a)" for a
      using lt *(4) by (auto simp: *(6) sized_def store_simps)
    show "owned h' a = (if a = length (chunks h) then m < length (mgrs h) else owned h a)" for a
      using lt *(4) by (auto simp: *(6) owned_def store_simps split: option.splits)
    show "load h' (MemP a) =
       (if a = length (chunks h) then Inr (replicate sz (if sh \<or> z then Some 0 else None))
        else load h (MemP a))" for a
      using lt *(4) by (auto simp: *(6) load_def store_simps)
    show "IS_CHUNK h' a = (a = length (chunks h) \<or> IS_CHUNK h a)" for a
      using lt *(4) by (auto simp: *(6) IS_CHUNK_def store_simps)
    show "shared_of h' a = (if a = length (chunks h) then sh else shared_of h a)" for a
      using lt *(4) by (auto simp: *(6) shared_of_def store_simps)
  qed
qed


lemma heap_inv_mgr: "heap_inv h \<Longrightarrow> m < length (mgrs h) \<Longrightarrow> mgr_inv h m"
  by (simp add: heap_inv_def list_all_iff)

lemma heap_inv_owned: "heap_inv h \<Longrightarrow> owned h c"
  by (cases "c < length (chunks h)") (auto simp: heap_inv_def list_all_iff owned_def lookup_def)

lemma heap_invI:
  "(\<And>m. m < length (mgrs h) \<Longrightarrow> mgr_inv h m) \<Longrightarrow> (\<And>c. c < length (chunks h) \<Longrightarrow> owned h c) \<Longrightarrow> heap_inv h"
  by (simp add: heap_inv_def list_all_iff)

lemma mgr_inv_lt: "mgr_inv h m \<Longrightarrow> m < length (mgrs h)"
  by (auto simp: mgr_inv_def dest: lookup_lt split: option.splits)

lemma live_chunks_snoc:
  assumes "length (chunks h') = Suc (length (chunks h))"
    and "\<And>a. is_chunk_of h' m a = (if a = length (chunks h) then b else is_chunk_of h m a)"
  shows "live_chunks h' m = live_chunks h m @ (if b then [length (chunks h)] else [])"
proof -
  have "filter (is_chunk_of h' m) [0..<length (chunks h)] = filter (is_chunk_of h m) [0..<length (chunks h)]"
    by (rule filter_cong) (simp_all add: assms(2))
  then show ?thesis
    by (simp add: live_chunks_def assms)
qed

lemma allocate_mgr_inv:
  assumes a: "mmatic_allocate sz ow z sh h = Inr (p, h')"
    and inv: "heap_inv h" and m': "m' < length (mgrs h)"
  shows "mgr_inv h' m'"
proof -
  show ?thesis
  proof (rule allocate_effect [OF a], goal_cases)
  case e: (1 m M l)
  let ?n = "length (chunks h)"
  have m: "mgr_inv h m"
    using inv e(2) by (auto intro: heap_inv_mgr dest: lookup_lt)
  have l: "is_chunk_of h m l \<or> is_sentinel_of h m l"
    using m e(2,3) by (rule mgr_inv_last_node)
  show ?thesis
  proof (cases "m' = m")
    case False
    have "mgr_inv h m'" using inv m' by (rule heap_inv_mgr)
    then show ?thesis
    proof (rule mgr_inv_frame)
      show "lookup (mgrs h') m' = lookup (mgrs h) m'" using False by (simp add: e)
      show "length (chunks h) \<le> length (chunks h')" by (simp add: e)
      show "is_chunk_of h' m' a = is_chunk_of h m' a" if "a < length (chunks h')" for a
        using False by (auto simp: e dest: is_chunk_of_lt)
      show "next_of h' a = next_of h a \<and> prev_of h' a = prev_of h a \<and> alloc_of h' a = alloc_of h a \<and>
         sized h' a = sized h a \<and> is_sentinel_of h' m' a = is_sentinel_of h m' a"
        if "is_chunk_of h m' a \<or> is_sentinel_of h m' a" for a
      proof -
        have "a \<noteq> l" using that l False node_mgr_unique by blast
        moreover have "a < ?n" using that
          by (auto simp: is_chunk_of_def is_sentinel_of_def dest: lookup_lt split: option.splits)
        ultimately show ?thesis by (simp add: e)
      qed
    qed
  next
    case True
    from m obtain M' f where i: "lookup (mgrs h) m = Some M'" "m_tag M' = TAG_MGR" "m_first M' = Some f"
      "is_sentinel_of h m f"
      "path (next_of h) (prev_of h) (f # live_chunks h m)"
      "next_of h (last (f # live_chunks h m)) = None"
      "m_last M' = Some (last (f # live_chunks h m))"
      "m_totalloc M' = sum_list (map (alloc_of h) (live_chunks h m))"
      "list_all (sized h) (live_chunks h m)"
      by (rule mgr_invE)
    have MM: "M' = M" using i(1) e(2) by simp
    have ll: "l = last (f # live_chunks h m)" using i(7) e(3) MM by simp
    have lc: "live_chunks h' m = live_chunks h m @ [?n]"
      using live_chunks_snoc [of h' h m True] by (simp add: e)
    have old: "a \<in> set (f # live_chunks h m) \<Longrightarrow> a < ?n" for a
      using i(4) by (auto simp: set_live_chunks is_sentinel_of_def dest: is_chunk_of_lt lookup_lt split: option.splits)
    have dist: "distinct (f # live_chunks h m)"
      using i(4) by (auto simp: distinct_live_chunks set_live_chunks dest: sentinel_not_chunk)
    have p: "path (next_of h') (prev_of h') (f # live_chunks h m)"
    proof -
      have "path (next_of h') (prev_of h') (f # live_chunks h m) = path (next_of h) (prev_of h) (f # live_chunks h m)"
      proof (rule path_cong)
        fix a assume b: "a \<in> set (butlast (f # live_chunks h m))"
        then have "a \<in> set (f # live_chunks h m)" by (rule in_set_butlastD)
        moreover have "a \<noteq> l"
          using b dist unfolding ll by (metis distinct_butlast list.distinct(1) not_distinct_conv_prefix snoc_eq_iff_butlast)
        ultimately show "next_of h' a = next_of h a" using old by (auto simp: e)
      next
        fix a assume "a \<in> set (tl (f # live_chunks h m))"
        then show "prev_of h' a = prev_of h a" using old by (auto simp: e)
      qed
      then show ?thesis using i(5) by simp
    qed
    have p': "path (next_of h') (prev_of h') ((f # live_chunks h m) @ [?n])"
      using p ll e(4) by (subst path_snoc') (auto simp: e simp del: last.simps)
    have s: "map (alloc_of h') (live_chunks h m) = map (alloc_of h) (live_chunks h m)"
      using old by (intro map_cong) (auto simp: e)
    have z: "list_all (sized h') (live_chunks h m)"
      using i(9) by (auto simp: list_all_iff e)
    show ?thesis
      using p' i(2,3,4,8) z old [of f]
      by (simp add: True mgr_inv_def e lc MM s)
  qed
  qed
qed


lemma allocate_heap_inv:
  assumes a: "mmatic_allocate sz ow z sh h = Inr (p, h')" and inv: "heap_inv h"
  shows "heap_inv h'"
proof (rule heap_invI)
  fix m assume "m < length (mgrs h')"
  moreover have "length (mgrs h') = length (mgrs h)"
    by (rule allocate_effect [OF a])
  ultimately have "m < length (mgrs h)" by simp
  with a inv show "mgr_inv h' m" by (rule allocate_mgr_inv)
next
  fix c assume c: "c < length (chunks h')"
  show "owned h' c"
  proof (rule allocate_effect [OF a], goal_cases)
    case e: (1 m M l)
    have "m < length (mgrs h)" using e(2) by (rule lookup_lt)
    then show ?case using heap_inv_owned [OF inv, of c] by (simp add: e)
  qed
qed

section \<open>Release of one chunk\<close>

lemma set_next_Inr:
  assumes "set_next p v h = Inr h'"
  obtains c C where "p = Some c" "lookup (chunks h) c = Some C"
    "h' = h\<lparr>chunks := upd (chunks h) c (C\<lparr>c_next := v\<rparr>)\<rparr>"
  using assms by (auto simp: set_next_def and_then_def deref_chunk_def split: option.splits)

lemma set_prev_Inr:
  assumes "set_prev p v h = Inr h'"
  obtains c C where "p = Some c" "lookup (chunks h) c = Some C"
    "h' = h\<lparr>chunks := upd (chunks h) c (C\<lparr>c_prev := v\<rparr>)\<rparr>"
  using assms by (auto simp: set_prev_def and_then_def deref_chunk_def split: option.splits)

lemma set_last_Inr:
  assumes "set_last p v h = Inr h'"
  obtains m M where "p = Some m" "lookup (mgrs h) m = Some M"
    "h' = h\<lparr>mgrs := upd (mgrs h) m (M\<lparr>m_last := v\<rparr>)\<rparr>"
  using assms by (auto simp: set_last_def and_then_def deref_mgr_def split: option.splits)

lemma sub_totalloc_Inr:
  assumes "sub_totalloc p n h = Inr h'"
  obtains m M where "p = Some m" "lookup (mgrs h) m = Some M"
    "h' = h\<lparr>mgrs := upd (mgrs h) m (M\<lparr>m_totalloc := m_totalloc M - n\<rparr>)\<rparr>"
  using assms by (auto simp: sub_totalloc_def and_then_def deref_mgr_def split: option.splits)

lemma freeptr_Inr:
  assumes "mmatic_freeptr mem h = Inr (q, h')"
  obtains c C h1 h2 h3 where "mem = MemP c" "lookup (chunks h) c = Some C" "c_tag C = TAG_CHUNK"
    "q = Null"
    "set_next (c_prev C) (c_next C) h = Inr h1"
    "(if c_next C \<noteq> None then set_prev (c_next C) (c_prev C) h1 else set_last (c_mgr C) (c_prev C) h1) = Inr h2"
    "sub_totalloc (c_mgr C) (c_alloc C) h2 = Inr h3"
    "h' = h3\<lparr>chunks := del (chunks h3) c\<rparr>"
  using assms
  by (auto simp: mmatic_freeptr_def and_then_def
      split: ptr.splits option.splits sum.splits if_splits)

lemma freeptr_effect:
  assumes "mmatic_freeptr mem h = Inr (q, h')"
  obtains c C P m M where "mem = MemP c" "q = Null" "lookup (chunks h) c = Some C" "c_tag C = TAG_CHUNK"
    "c_prev C = Some P" "c_mgr C = Some m" "lookup (mgrs h) m = Some M"
    "length (chunks h') = length (chunks h)" "length (mgrs h') = length (mgrs h)"
    "\<And>m'. lookup (mgrs h') m' =
       (if m' = m
        then Some (M\<lparr>m_last := (if c_next C = None then Some P else m_last M),
                     m_totalloc := m_totalloc M - c_alloc C\<rparr>)
        else lookup (mgrs h) m')"
    "\<And>m' a. is_chunk_of h' m' a = (a \<noteq> c \<and> is_chunk_of h m' a)"
    "\<And>m' a. is_sentinel_of h' m' a = (a \<noteq> c \<and> is_sentinel_of h m' a)"
    "\<And>a. next_of h' a = (if a = c then None else if a = P then c_next C else next_of h a)"
    "\<And>a. prev_of h' a = (if a = c then None else if c_next C = Some a then Some P else prev_of h a)"
    "\<And>a. alloc_of h' a = (if a = c then 0 else alloc_of h a)"
    "\<And>a. sized h' a = (a \<noteq> c \<and> sized h a)"
    "\<And>a. owned h' a = (a = c \<or> owned h a)"
    "\<And>a. load h' (MemP a) = (if a = c then Inl Undefined else load h (MemP a))"
    "\<And>a. IS_CHUNK h' a = (a \<noteq> c \<and> IS_CHUNK h a)"
    "\<And>a. shared_of h' a = (a \<noteq> c \<and> shared_of h a)"
proof (rule freeptr_Inr [OF assms], goal_cases)
  case f: (1 c C h1 h2 h3)
  from f(6) obtain P CP where P: "c_prev C = Some P" "lookup (chunks h) P = Some CP"
    and h1: "h1 = h\<lparr>chunks := upd (chunks h) P (CP\<lparr>c_next := c_next C\<rparr>)\<rparr>"
    by (rule set_next_Inr)
  from f(8) obtain m M2 where m: "c_mgr C = Some m" "lookup (mgrs h2) m = Some M2"
    and h3: "h3 = h2\<lparr>mgrs := upd (mgrs h2) m (M2\<lparr>m_totalloc := m_totalloc M2 - c_alloc C\<rparr>)\<rparr>"
    by (rule sub_totalloc_Inr)
  note lt = lookup_lt [OF P(2)] lookup_lt [OF f(3)]
  show ?case
  proof (cases "c_next C")
    case None
    with f(7) obtain M where M: "lookup (mgrs h1) m = Some M"
      and h2: "h2 = h1\<lparr>mgrs := upd (mgrs h1) m (M\<lparr>m_last := Some P\<rparr>)\<rparr>"
      using m(1) P(1) by (auto elim: set_last_Inr)
    have M2: "M2 = M\<lparr>m_last := Some P\<rparr>"
      using m(2) M lookup_lt [OF M] by (simp add: h2 store_simps split: if_splits)
    have h': "h' = \<lparr>mgrs = upd (mgrs h) m (M\<lparr>m_last := Some P, m_totalloc := m_totalloc M - c_alloc C\<rparr>),
        chunks = del (upd (chunks h) P (CP\<lparr>c_next := c_next C\<rparr>)) c\<rparr>"
      using M lookup_lt [OF M] by (simp add: f(9) h3 h2 h1 M2 upd_def)
    have Mh: "lookup (mgrs h) m = Some M" using M by (simp add: h1)
    note ltm = lookup_lt [OF Mh]
    show ?thesis
    proof (rule f(1) [OF f(2) f(5) f(3) f(4) P(1) m(1) Mh], goal_cases)
      case 1 show ?case by (simp add: h' store_simps)
    next
      case 2 show ?case by (simp add: h' store_simps)
    next
      case 3 show ?case using ltm by (simp add: h' store_simps None)
    next
      case 4 show ?case using lt P(2) f(3) by (auto simp: h' is_chunk_of_def store_simps)
    next
      case 5 show ?case using lt P(2) f(3) by (auto simp: h' is_sentinel_of_def store_simps)
    next
      case 6 show ?case using lt P(2) f(3) by (auto simp: h' next_of_def store_simps)
    next
      case 7 show ?case using lt P(2) f(3) by (auto simp: h' prev_of_def store_simps None)
    next
      case 8 show ?case using lt P(2) f(3) by (auto simp: h' alloc_of_def store_simps)
    next
      case 9 show ?case using lt P(2) f(3) by (auto simp: h' sized_def store_simps)
    next
      case 10 show ?case using lt P(2) f(3) by (auto simp: h' owned_def store_simps split: option.splits)
    next
      case 11 show ?case using lt P(2) f(3) by (auto simp: h' load_def store_simps)
    next
      case 12 show ?case using lt P(2) f(3) by (auto simp: h' IS_CHUNK_def store_simps)
    next
      case 13 show ?case using lt P(2) f(3) by (auto simp: h' shared_of_def store_simps)
    qed
  next
    case (Some N)
    with f(7) obtain CN where N: "lookup (chunks h1) N = Some CN"
      and h2: "h2 = h1\<lparr>chunks := upd (chunks h1) N (CN\<lparr>c_prev := Some P\<rparr>)\<rparr>"
      using P(1) by (auto elim: set_prev_Inr)
    have Mh: "lookup (mgrs h) m = Some M2" using m(2) by (simp add: h2 h1)
    note ltm = lookup_lt [OF Mh]
    have h': "h' = \<lparr>mgrs = upd (mgrs h) m (M2\<lparr>m_totalloc := m_totalloc M2 - c_alloc C\<rparr>),
        chunks = del (upd (upd (chunks h) P (CP\<lparr>c_next := c_next C\<rparr>)) N (CN\<lparr>c_prev := Some P\<rparr>)) c\<rparr>"
      by (simp add: f(9) h3 h2 h1)
    have CN: "N \<noteq> P \<Longrightarrow> lookup (chunks h) N = Some CN" "N = P \<Longrightarrow> CN = CP\<lparr>c_next := c_next C\<rparr>"
      "N < length (chunks h)"
      using N lt lookup_lt [OF N] by (auto simp: h1 store_simps split: if_splits)
    show ?thesis
    proof (rule f(1) [OF f(2) f(5) f(3) f(4) P(1) m(1) Mh], goal_cases)
      case 1 show ?case by (simp add: h' store_simps)
    next
      case 2 show ?case by (simp add: h' store_simps)
    next
      case 3 show ?case using ltm by (simp add: h' store_simps Some)
    next
      case 4 show ?case using lt P(2) f(3) CN by (auto simp: h' is_chunk_of_def store_simps)
    next
      case 5 show ?case using lt P(2) f(3) CN by (auto simp: h' is_sentinel_of_def store_simps)
    next
      case 6 show ?case using lt P(2) f(3) CN by (auto simp: h' next_of_def store_simps)
    next
      case 7 show ?case using lt P(2) f(3) CN by (auto simp: h' prev_of_def store_simps Some)
    next
      case 8 show ?case using lt P(2) f(3) CN by (auto simp: h' alloc_of_def store_simps)
    next
      case 9 show ?case using lt P(2) f(3) CN by (auto simp: h' sized_def store_simps)
    next
      case 10 show ?case using lt P(2) f(3) CN by (auto simp: h' owned_def store_simps split: option.splits)
    next
      case 11 show ?case using lt P(2) f(3) CN by (auto simp: h' load_def store_simps)
    next
      case 12 show ?case using lt P(2) f(3) CN by (auto simp: h' IS_CHUNK_def store_simps)
    next
      case 13 show ?case using lt P(2) f(3) CN by (auto simp: h' shared_of_def store_simps)
    qed
  qed
qed


lemma live_neighbours:
  assumes "path nx pv (f # cs)" "nx (last (f # cs)) = None" "c \<in> set cs"
  obtains pre ys where "f # cs = pre @ c # ys" "pre \<noteq> []" "hd pre = f" "pv c = Some (last pre)"
    "nx c = (case ys of [] \<Rightarrow> None | y # _ \<Rightarrow> Some y)"
    "path nx pv pre" "path nx pv ys"
proof -
  from assms(3) obtain xs ys where cs: "cs = xs @ c # ys"
    by (auto simp: in_set_conv_decomp)
  have p: "path nx pv ((f # xs) @ c # ys)" using assms(1) by (simp add: cs)
  then have 1: "path nx pv ((f # xs) @ [c])" "path nx pv (c # ys)"
    by (simp_all only: path_overlap [of nx pv "f # xs" c ys])
  from 1(1) have 2: "path nx pv (f # xs)" "pv c = Some (last (f # xs))"
    by (simp_all only: path_snoc' [of "f # xs" nx pv c, OF list.distinct(2)])
  have 3: "nx c = (case ys of [] \<Rightarrow> None | y # _ \<Rightarrow> Some y)"
    using 1(2) assms(2) by (cases ys) (simp_all add: cs)
  have 4: "path nx pv ys"
    using 1(2) by (cases ys) simp_all
  show ?thesis
    by (rule that [of "f # xs" ys]) (use 2 3 4 in \<open>simp_all add: cs\<close>)
qed

lemma live_chunks_del:
  assumes "length (chunks h') = length (chunks h)"
    and "\<And>a. is_chunk_of h' m a = (a \<noteq> c \<and> is_chunk_of h m a)"
  shows "live_chunks h' m = filter (\<lambda>a. a \<noteq> c) (live_chunks h m)"
proof -
  have "is_chunk_of h' m = (\<lambda>a. a \<noteq> c \<and> is_chunk_of h m a)"
    by (rule ext) (rule assms(2))
  then show ?thesis
    by (simp add: live_chunks_def assms(1) conj_commute)
qed

lemma filter_neq_id: "c \<notin> set xs \<Longrightarrow> filter (\<lambda>a. a \<noteq> c) xs = xs"
  by (induction xs) auto

lemma distinct_last_butlast: "distinct xs \<Longrightarrow> a \<in> set (butlast xs) \<Longrightarrow> a \<noteq> last xs"
  by (cases xs rule: rev_cases) auto

lemma freeptr_mgr_inv:
  assumes fr: "mmatic_freeptr mem h = Inr (q, h')"
    and inv: "heap_inv h" and m': "m' < length (mgrs h)"
  shows "mgr_inv h' m'"
proof (rule freeptr_effect [OF fr], goal_cases)
  case e: (1 c C P m M)
  have m: "mgr_inv h m"
    using inv e(7) by (auto intro: heap_inv_mgr dest: lookup_lt)
  have c: "is_chunk_of h m c" using e(3,4,6) by (simp add: is_chunk_of_def)
  from m obtain M' f where i: "lookup (mgrs h) m = Some M'" "m_tag M' = TAG_MGR" "m_first M' = Some f"
    "is_sentinel_of h m f"
    "path (next_of h) (prev_of h) (f # live_chunks h m)"
    "next_of h (last (f # live_chunks h m)) = None"
    "m_last M' = Some (last (f # live_chunks h m))"
    "m_totalloc M' = sum_list (map (alloc_of h) (live_chunks h m))"
    "list_all (sized h) (live_chunks h m)"
    by (rule mgr_invE)
  have MM: "M' = M" using i(1) e(7) by simp
  have "c \<in> set (live_chunks h m)" using c by (simp add: set_live_chunks)
  with i(5,6) obtain pre ys where s: "f # live_chunks h m = pre @ c # ys" "pre \<noteq> []" "hd pre = f"
    "prev_of h c = Some (last pre)"
    "next_of h c = (case ys of [] \<Rightarrow> None | y # _ \<Rightarrow> Some y)"
    "path (next_of h) (prev_of h) pre" "path (next_of h) (prev_of h) ys"
    by (rule live_neighbours)
  have dist: "distinct (pre @ c # ys)"
    using i(4) unfolding s(1) [symmetric]
    by (auto simp: distinct_live_chunks set_live_chunks dest: sentinel_not_chunk)
  have node: "a \<in> set (pre @ c # ys) \<Longrightarrow> is_chunk_of h m a \<or> is_sentinel_of h m a" for a
    unfolding s(1) [symmetric] using i(4) by (auto simp: set_live_chunks)
  have P: "P = last pre" using s(4) e(3,5) by (simp add: prev_of_def)
  have N: "c_next C = (case ys of [] \<Rightarrow> None | y # _ \<Rightarrow> Some y)"
    using s(5) e(3) by (simp add: next_of_def)
  have Pn: "P \<in> set pre" using s(2) P by simp
  show ?case
  proof (cases "m' = m")
    case False
    have "mgr_inv h m'" using inv m' by (rule heap_inv_mgr)
    then show ?thesis
    proof (rule mgr_inv_frame)
      show "lookup (mgrs h') m' = lookup (mgrs h) m'" using False by (simp add: e)
      show "length (chunks h) \<le> length (chunks h')" by (simp add: e)
      show "is_chunk_of h' m' a = is_chunk_of h m' a" if "a < length (chunks h')" for a
        using False c node_mgr_unique by (auto simp: e)
      show "next_of h' a = next_of h a \<and> prev_of h' a = prev_of h a \<and> alloc_of h' a = alloc_of h a \<and>
         sized h' a = sized h a \<and> is_sentinel_of h' m' a = is_sentinel_of h m' a"
        if "is_chunk_of h m' a \<or> is_sentinel_of h m' a" for a
      proof -
        have "a \<notin> set (pre @ c # ys)"
          using that node False node_mgr_unique by blast
        then have "a \<noteq> c" "a \<noteq> P" "c_next C \<noteq> Some a"
          using Pn by (auto simp: N split: list.splits)
        then show ?thesis by (simp add: e)
      qed
    qed
  next
    case True
    have lc: "f # live_chunks h' m = pre @ ys"
    proof -
      have "live_chunks h' m = filter (\<lambda>a. a \<noteq> c) (live_chunks h m)"
        by (rule live_chunks_del) (simp_all add: e)
      moreover have "f \<noteq> c" using c i(4) sentinel_not_chunk by blast
      ultimately have "f # live_chunks h' m = filter (\<lambda>a. a \<noteq> c) (f # live_chunks h m)"
        by simp
      also have "\<dots> = pre @ ys"
        using dist unfolding s(1) by (simp add: filter_neq_id)
      finally show ?thesis .
    qed
    have pre: "path (next_of h') (prev_of h') pre"
    proof -
      have "path (next_of h') (prev_of h') pre = path (next_of h) (prev_of h) pre"
      proof (rule path_cong)
        fix a assume b: "a \<in> set (butlast pre)"
        then have "a \<in> set pre" by (rule in_set_butlastD)
        moreover have "a \<noteq> P" using b dist unfolding P by (auto dest: distinct_last_butlast)
        ultimately show "next_of h' a = next_of h a" using dist by (auto simp: e)
      next
        fix a assume "a \<in> set (tl pre)"
        then have "a \<in> set pre" by (rule list.set_sel(2) [rotated]) (rule s(2))
        then show "prev_of h' a = prev_of h a" using dist by (auto simp: e N split: list.splits)
      qed
      then show ?thesis using s(6) by simp
    qed
    have Pc: "P \<noteq> c" using Pn dist by auto
    have tot: "m_totalloc M - c_alloc C = sum_list (map (alloc_of h') (live_chunks h' m))"
    proof -
      have "sum_list (map (alloc_of h') (pre @ ys)) = sum_list (map (alloc_of h) (pre @ ys))"
        using dist by (intro arg_cong [where f = sum_list] map_cong) (auto simp: e)
      then have "sum_list (map (alloc_of h') (f # live_chunks h' m)) + alloc_of h c
          = sum_list (map (alloc_of h) (f # live_chunks h m))"
        unfolding lc s(1) by simp
      moreover have "alloc_of h' f = alloc_of h f"
        using c i(4) sentinel_not_chunk by (auto simp: e)
      moreover have "alloc_of h c = c_alloc C" using e(3) by (simp add: alloc_of_def)
      ultimately show ?thesis using i(8) MM by simp
    qed
    have sz: "list_all (sized h') (live_chunks h' m)"
    proof -
      have "set (live_chunks h' m) \<subseteq> set (live_chunks h m)" "c \<notin> set (live_chunks h' m)"
        by (auto simp: set_live_chunks e)
      then show ?thesis using i(9) by (auto simp: list_all_iff e)
    qed
    have sen: "is_sentinel_of h' m f"
      using c i(4) sentinel_not_chunk by (auto simp: e)
    show ?thesis
    proof (cases ys)
      case Nil
      have "next_of h' (last pre) = None" using Pc N Nil by (simp add: e P [symmetric])
      then show ?thesis
        using pre sen sz tot i(2,3) N Nil s(2)
        by (simp add: True mgr_inv_def e(10) MM lc P del: last.simps)
    next
      case (Cons y ys')
      have y: "y \<noteq> c" "y \<notin> set pre" "y \<notin> set ys'" using dist Cons by auto
      have 1: "path (next_of h') (prev_of h') (pre @ [y])"
        using pre s(2) Pc y N Cons by (simp add: path_snoc' e P [symmetric])
      have 2: "path (next_of h') (prev_of h') (y # ys')"
      proof -
        have "path (next_of h') (prev_of h') (y # ys') = path (next_of h) (prev_of h) (y # ys')"
        proof (rule path_cong)
          fix a assume "a \<in> set (butlast (y # ys'))"
          then have "a \<in> set ys" unfolding Cons by (rule in_set_butlastD)
          then show "next_of h' a = next_of h a" using dist Pn by (auto simp: e)
        next
          fix a assume "a \<in> set (tl (y # ys'))"
          then show "prev_of h' a = prev_of h a" using dist y by (auto simp: e N Cons)
        qed
        then show ?thesis using s(7) Cons by simp
      qed
      have 3: "path (next_of h') (prev_of h') (pre @ ys)"
        unfolding Cons using 1 2 by (simp only: path_overlap [of _ _ pre y ys'])
      have l: "last (pre @ ys) = last (f # live_chunks h m)" "last (pre @ ys) \<in> set ys"
        unfolding s(1) Cons by simp_all
      then have "last (pre @ ys) \<noteq> c" "last (pre @ ys) \<noteq> P" using dist Pn by auto
      then have 4: "next_of h' (last (pre @ ys)) = None"
        using i(6) l(1) by (simp add: e)
      show ?thesis
        using 3 4 sen sz tot i(2,3,7) N Cons l(1)
        by (simp add: True mgr_inv_def e(10) MM lc del: last.simps)
    qed
  qed
qed

lemma freeptr_heap_inv:
  assumes fr: "mmatic_freeptr mem h = Inr (q, h')" and inv: "heap_inv h"
  shows "heap_inv h'"
proof (rule heap_invI)
  fix m assume "m < length (mgrs h')"
  moreover have "length (mgrs h') = length (mgrs h)"
    by (rule freeptr_effect [OF fr])
  ultimately have "m < length (mgrs h)" by simp
  with fr inv show "mgr_inv h' m" by (rule freeptr_mgr_inv)
next
  fix c assume c: "c < length (chunks h')"
  show "owned h' c"
    by (rule freeptr_effect [OF fr]) (use heap_inv_owned [OF inv, of c] in simp)
qed

lemma node_live:
  "is_chunk_of h m a \<or> is_sentinel_of h m a \<Longrightarrow> \<exists>A. lookup (chunks h) a = Some A"
  by (auto simp: is_chunk_of_def is_sentinel_of_def split: option.splits)

lemma chunk_neighbours:
  assumes inv: "heap_inv h" and c: "lookup (chunks h) c = Some C" "c_tag C = TAG_CHUNK"
  obtains m M P CP where "c_mgr C = Some m" "lookup (mgrs h) m = Some M" "mgr_inv h m"
    "c_prev C = Some P" "lookup (chunks h) P = Some CP" "P \<noteq> c"
    "c_next C = None \<or> (\<exists>N CN. c_next C = Some N \<and> lookup (chunks h) N = Some CN \<and> N \<noteq> c \<and> N \<noteq> P)"
proof -
  from heap_inv_owned [OF inv, of c] c obtain m where m: "c_mgr C = Some m" "m < length (mgrs h)"
    by (auto simp: owned_def split: option.splits)
  have mi: "mgr_inv h m" using inv m(2) by (rule heap_inv_mgr)
  have ch: "is_chunk_of h m c" using c m by (simp add: is_chunk_of_def)
  from mi obtain M f where i: "lookup (mgrs h) m = Some M"
    "is_sentinel_of h m f"
    "path (next_of h) (prev_of h) (f # live_chunks h m)"
    "next_of h (last (f # live_chunks h m)) = None"
    by (rule mgr_invE)
  have "c \<in> set (live_chunks h m)" using ch by (simp add: set_live_chunks)
  with i(3,4) obtain pre ys where s: "f # live_chunks h m = pre @ c # ys" "pre \<noteq> []" "hd pre = f"
    "prev_of h c = Some (last pre)"
    "next_of h c = (case ys of [] \<Rightarrow> None | y # _ \<Rightarrow> Some y)"
    "path (next_of h) (prev_of h) pre" "path (next_of h) (prev_of h) ys"
    by (rule live_neighbours)
  have dist: "distinct (pre @ c # ys)"
    using i(2) unfolding s(1) [symmetric]
    by (auto simp: distinct_live_chunks set_live_chunks dest: sentinel_not_chunk)
  have node: "a \<in> set (pre @ c # ys) \<Longrightarrow> \<exists>A. lookup (chunks h) a = Some A" for a
    unfolding s(1) [symmetric] using i(2) by (auto simp: set_live_chunks intro: node_live)
  have "last pre \<in> set pre" using s(2) by simp
  then obtain CP where P: "lookup (chunks h) (last pre) = Some CP" "last pre \<noteq> c"
    using node [of "last pre"] dist by auto
  have N: "c_next C = None \<or> (\<exists>N CN. c_next C = Some N \<and> lookup (chunks h) N = Some CN \<and> N \<noteq> c \<and> N \<noteq> last pre)"
  proof (cases ys)
    case Nil
    then show ?thesis using s(5) c by (simp add: next_of_def)
  next
    case (Cons y ys')
    then have "y \<noteq> c" "y \<noteq> last pre" using dist \<open>last pre \<in> set pre\<close> by auto
    moreover obtain CN where "lookup (chunks h) y = Some CN" using node [of y] Cons by auto
    ultimately show ?thesis using s(5) c Cons by (simp add: next_of_def)
  qed
  show ?thesis
    by (rule that [OF m(1) i(1) mi _ P N]) (use s(4) c in \<open>simp add: prev_of_def\<close>)
qed

lemma freeptr_total:
  assumes inv: "heap_inv h" and c: "IS_CHUNK h c"
  shows "\<exists>h'. mmatic_freeptr (MemP c) h = Inr (Null, h')"
proof -
  from c obtain C where C: "lookup (chunks h) c = Some C" "c_tag C = TAG_CHUNK"
    by (auto simp: IS_CHUNK_def split: option.splits)
  from inv C obtain m M P CP where n: "c_mgr C = Some m" "lookup (mgrs h) m = Some M" "mgr_inv h m"
    "c_prev C = Some P" "lookup (chunks h) P = Some CP" "P \<noteq> c"
    "c_next C = None \<or> (\<exists>N CN. c_next C = Some N \<and> lookup (chunks h) N = Some CN \<and> N \<noteq> c \<and> N \<noteq> P)"
    by (rule chunk_neighbours)
  note lt = lookup_lt [OF n(2)] lookup_lt [OF n(5)]
  from n(7) show ?thesis
  proof
    assume "c_next C = None"
    then show ?thesis
      using C n lt
      by (simp add: mmatic_freeptr_def and_then_def set_next_def set_last_def sub_totalloc_def
          deref_chunk_def deref_mgr_def store_simps)
  next
    assume "\<exists>N CN. c_next C = Some N \<and> lookup (chunks h) N = Some CN \<and> N \<noteq> c \<and> N \<noteq> P"
    then obtain N CN where "c_next C = Some N" "lookup (chunks h) N = Some CN" "N \<noteq> c" "N \<noteq> P"
      by blast
    then show ?thesis
      using C n lt
      by (simp add: mmatic_freeptr_def and_then_def set_next_def set_prev_def sub_totalloc_def
          deref_chunk_def deref_mgr_def store_simps)
  qed
qed

lemma owner_mgr_inv:
  assumes "heap_inv h" "owner_mgr h ow = Inr om"
  obtains m M where "om = Some m" "lookup (mgrs h) m = Some M" "mgr_inv h m"
proof -
  have "\<exists>m. om = Some m \<and> m < length (mgrs h)"
  proof (cases ow)
    case Null
    then show ?thesis using assms(2) by (simp add: owner_mgr_def)
  next
    case (MgrP m)
    then show ?thesis using assms(2)
      by (auto simp: owner_mgr_def IS_MGR_def dest: lookup_lt split: if_splits option.splits)
  next
    case (MemP c)
    then show ?thesis using assms(2) heap_inv_owned [OF assms(1), of c]
      by (auto simp: owner_mgr_def owned_def split: if_splits option.splits) metis
  qed
  then obtain m where m: "om = Some m" "m < length (mgrs h)" by blast
  then have "mgr_inv h m" using assms(1) by (simp add: heap_inv_mgr)
  then show ?thesis using m(1) that by (auto elim: mgr_invE)
qed

lemma allocate_total:
  assumes inv: "heap_inv h" and ow: "owner_mgr h ow = Inr om"
  shows "\<exists>h'. mmatic_allocate sz ow z sh h = Inr (MemP (length (chunks h)), h')"
proof -
  from inv ow obtain m M where m: "om = Some m" "lookup (mgrs h) m = Some M" "mgr_inv h m"
    by (rule owner_mgr_inv)
  from m(3) obtain M' f where i: "lookup (mgrs h) m = Some M'" "is_sentinel_of h m f"
    "m_last M' = Some (last (f # live_chunks h m))"
    by (rule mgr_invE)
  define l where "l = last (f # live_chunks h m)"
  have "is_chunk_of h m l \<or> is_sentinel_of h m l"
    using m(3) i(1,3) unfolding l_def by (rule mgr_inv_last_node)
  then obtain L where "lookup (chunks h) l = Some L"
    using node_live by blast
  then show ?thesis
    using ow m i unfolding l_def [symmetric]
    by (simp add: mmatic_allocate_def and_then_def deref_mgr_def deref_chunk_def Let_def)
qed

section \<open>Writes to payloads\<close>

lemma store_effect:
  assumes "store p off bs h = Inr h'"
  obtains c mem where "p = MemP c" "load h (MemP c) = Inr mem" "off + length bs \<le> length mem"
    "mgrs h' = mgrs h" "length (chunks h') = length (chunks h)"
    "\<And>m a. is_chunk_of h' m a = is_chunk_of h m a"
    "\<And>m a. is_sentinel_of h' m a = is_sentinel_of h m a"
    "\<And>a. next_of h' a = next_of h a"
    "\<And>a. prev_of h' a = prev_of h a"
    "\<And>a. alloc_of h' a = alloc_of h a"
    "\<And>a. sized h' a = sized h a"
    "\<And>a. owned h' a = owned h a"
    "\<And>a. load h' (MemP a) =
       (if a = c then Inr (take off mem @ bs @ drop (off + length bs) mem) else load h (MemP a))"
    "\<And>a. IS_CHUNK h' a = IS_CHUNK h a"
    "\<And>a. shared_of h' a = shared_of h a"
proof -
  from assms obtain c C where *: "p = MemP c" "lookup (chunks h) c = Some C"
    "off + length bs \<le> length (c_payload C)"
    "h' = h\<lparr>chunks := upd (chunks h) c
       (C\<lparr>c_payload := take off (c_payload C) @ bs @ drop (off + length bs) (c_payload C)\<rparr>)\<rparr>"
    by (auto simp: store_def split: ptr.splits option.splits if_splits)
  note lt = lookup_lt [OF *(2)]
  show ?thesis
  proof (rule that [OF *(1), of "c_payload C"], goal_cases)
    case 1 show ?case using *(2) by (simp add: load_def)
  next
    case 2 show ?case by (rule *(3))
  next
    case 3 show ?case by (simp add: *(4))
  next
    case 4 show ?case by (simp add: *(4) store_simps)
  next
    case 5 show ?case using lt *(2) by (auto simp: *(4) is_chunk_of_def store_simps)
  next
    case 6 show ?case using lt *(2) by (auto simp: *(4) is_sentinel_of_def store_simps)
  next
    case 7 show ?case using lt *(2) by (auto simp: *(4) next_of_def store_simps)
  next
    case 8 show ?case using lt *(2) by (auto simp: *(4) prev_of_def store_simps)
  next
    case 9 show ?case using lt *(2) by (auto simp: *(4) alloc_of_def store_simps)
  next
    case 10 show ?case using lt *(2,3) by (auto simp: *(4) sized_def store_simps)
  next
    case 11 show ?case using lt *(2) by (auto simp: *(4) owned_def store_simps split: option.splits)
  next
    case 12 show ?case using lt *(2) by (auto simp: *(4) load_def store_simps)
  next
    case 13 show ?case using lt *(2) by (auto simp: *(4) IS_CHUNK_def store_simps)
  next
    case 14 show ?case using lt *(2) by (auto simp: *(4) shared_of_def store_simps)
  qed
qed

lemma store_heap_inv:
  assumes st: "store p off bs h = Inr h'" and inv: "heap_inv h"
  shows "heap_inv h'"
proof (rule store_effect [OF st], goal_cases)
  case e: (1 c mem)
  show ?case
  proof (rule heap_invI)
    fix m assume "m < length (mgrs h')"
    then have "mgr_inv h m" using inv by (simp add: e heap_inv_mgr)
    then show "mgr_inv h' m"
      by (rule mgr_inv_frame) (simp_all add: e)
  next
    fix a show "owned h' a" using heap_inv_owned [OF inv, of a] by (simp add: e)
  qed
qed

lemma store_total:
  assumes "load h (MemP c) = Inr mem" "off + length bs \<le> length mem"
  shows "\<exists>h'. store (MemP c) off bs h = Inr h'"
  using assms by (auto simp: store_def load_def split: option.splits)

section \<open>Creation of a manager\<close>

lemma empty_heap_inv: "heap_inv empty_heap"
  by (simp add: heap_inv_def empty_heap_def)

lemma create_heap_inv:
  assumes inv: "heap_inv h"
  shows "heap_inv (snd (mmatic_create h))"
proof -
  let ?n = "length (mgrs h)" and ?f = "length (chunks h)"
  define h' where "h' = snd (mmatic_create h)"
  have h': "h' = \<lparr>mgrs = new (mgrs h)
             \<lparr>m_tag = TAG_MGR, m_totalloc = 0, m_first = Some ?f, m_last = Some ?f\<rparr>,
           chunks = new (chunks h) (zero_chunk\<lparr>c_mgr := Some ?n\<rparr>)\<rparr>"
    by (simp add: h'_def mmatic_create_def Let_def)
  have tag: "TAG_CHUNK \<noteq> (0 :: 32 word)" by (simp add: TAG_CHUNK_def)
  have ch: "is_chunk_of h' m a = is_chunk_of h m a" for m a
    using tag by (auto simp: h' is_chunk_of_def store_simps zero_chunk_def)
  have old': "a \<noteq> ?f \<Longrightarrow> next_of h' a = next_of h a \<and> prev_of h' a = prev_of h a \<and>
      alloc_of h' a = alloc_of h a \<and> sized h' a = sized h a \<and>
      is_sentinel_of h' m a = is_sentinel_of h m a" for a m
    by (auto simp: h' next_of_def prev_of_def alloc_of_def sized_def is_sentinel_of_def
        store_simps split: option.splits)
  have "heap_inv h'"
  proof (rule heap_invI)
    fix m assume "m < length (mgrs h')"
    then have "m < ?n \<or> m = ?n" by (auto simp: h' store_simps)
    then show "mgr_inv h' m"
    proof
      assume "m < ?n"
      then have "mgr_inv h m" using inv by (simp add: heap_inv_mgr)
      then show ?thesis
      proof (rule mgr_inv_frame)
        show "lookup (mgrs h') m = lookup (mgrs h) m" using \<open>m < ?n\<close> by (simp add: h' store_simps)
        show "length (chunks h) \<le> length (chunks h')" by (simp add: h' store_simps)
        show "is_chunk_of h' m a = is_chunk_of h m a" for a by (rule ch)
        show "next_of h' a = next_of h a \<and> prev_of h' a = prev_of h a \<and> alloc_of h' a = alloc_of h a \<and>
           sized h' a = sized h a \<and> is_sentinel_of h' m a = is_sentinel_of h m a"
          if "is_chunk_of h m a \<or> is_sentinel_of h m a" for a
        proof -
          have "a \<noteq> ?f" using that node_live [OF that] by (auto dest: lookup_lt)
          then show ?thesis by (rule old')
        qed
      qed
    next
      assume m: "m = ?n"
      have "\<not> is_chunk_of h ?n a" for a
        using heap_inv_owned [OF inv, of a] by (auto simp: is_chunk_of_def owned_def split: option.splits)
      then have "live_chunks h' ?n = []"
        by (simp add: live_chunks_def ch)
      then show ?thesis
        by (simp add: m mgr_inv_def) (simp add: h' store_simps is_sentinel_of_def next_of_def zero_chunk_def tag)
    qed
  next
    fix a assume "a < length (chunks h')"
    then have "a < ?f \<or> a = ?f" by (auto simp: h' store_simps)
    then show "owned h' a"
      using heap_inv_owned [OF inv, of a]
      by (auto simp: h' owned_def store_simps split: option.splits)
  qed
  then show ?thesis by (simp add: h'_def)
qed

section \<open>The traversal\<close>

lemma traverse_live:
  assumes "mgr_inv h m"
  shows "traverse h m = live_chunks h m"
proof -
  from assms obtain M f where i: "lookup (mgrs h) m = Some M" "m_first M = Some f"
    "path (next_of h) (prev_of h) (f # live_chunks h m)"
    "next_of h (last (f # live_chunks h m)) = None"
    by (rule mgr_invE)
  have "walk (next_of h) (length (chunks h)) (next_of h f) = live_chunks h m"
    using i(3,4) length_live_chunks by (rule walk_path)
  then show ?thesis using i(1,2) by (simp add: traverse_def)
qed

section \<open>Reallocation\<close>

lemma heap_inv_chunk:
  assumes "heap_inv h" "IS_CHUNK h c"
  obtains m where "m < length (mgrs h)" "is_chunk_of h m c" "mgr_inv h m" "IS_MGR h m" "sized h c"
    "c < length (chunks h)"
proof -
  from assms(2) obtain C where C: "lookup (chunks h) c = Some C" "c_tag C = TAG_CHUNK"
    by (auto simp: IS_CHUNK_def split: option.splits)
  with heap_inv_owned [OF assms(1), of c] obtain m where m: "c_mgr C = Some m" "m < length (mgrs h)"
    by (auto simp: owned_def split: option.splits)
  have mi: "mgr_inv h m" using assms(1) m(2) by (rule heap_inv_mgr)
  have ch: "is_chunk_of h m c" using C m by (simp add: is_chunk_of_def)
  have "IS_MGR h m" using mi by (auto simp: IS_MGR_def elim: mgr_invE)
  moreover have "sized h c"
    using mi ch by (auto simp: list_all_iff set_live_chunks elim!: mgr_invE)
  ultimately show ?thesis using that m(2) ch mi lookup_lt [OF C(1)] by blast
qed

lemma memcpy_Inr:
  assumes "memcpy dst src n h = Inr h'"
  obtains S where "load h src = Inr S" "n \<le> length S" "store dst 0 (take n S) h = Inr h'"
  using assms by (auto simp: memcpy_def and_then_def split: sum.splits if_splits)

lemma realloc_Inr:
  assumes "mmatic_realloc mem sz ow h = Inr (p, h')"
  obtains c C h1 h2 q where "mem = MemP c" "lookup (chunks h) c = Some C" "c_tag C = TAG_CHUNK"
    "mmatic_allocate (if sz = 0 then c_alloc C else sz)
       (if ow = Null then (case c_mgr C of None \<Rightarrow> Null | Some m \<Rightarrow> MgrP m) else ow)
       False (c_shared C) h = Inr (p, h1)"
    "memcpy p (MemP c) (c_alloc C) h1 = Inr h2"
    "mmatic_freeptr (MemP c) h2 = Inr (q, h')"
proof -
  obtain c where mem: "mem = MemP c"
    using assms by (cases mem) (simp_all add: mmatic_realloc_def)
  obtain C where C: "lookup (chunks h) c = Some C"
    using assms mem by (cases "lookup (chunks h) c") (simp_all add: mmatic_realloc_def)
  have tag: "c_tag C = TAG_CHUNK"
    using assms mem C by (cases "c_tag C = TAG_CHUNK") (simp_all add: mmatic_realloc_def)
  let ?sz = "if sz = 0 then c_alloc C else sz"
  let ?ow = "if ow = Null then (case c_mgr C of None \<Rightarrow> Null | Some m \<Rightarrow> MgrP m) else ow"
  have "and_then (mmatic_allocate ?sz ?ow False (c_shared C) h) (\<lambda>(newmem, h1).
          and_then (memcpy newmem (MemP c) (c_alloc C) h1) (\<lambda>h2.
          and_then (mmatic_freeptr (MemP c) h2) (\<lambda>(_, h3). Inr (newmem, h3)))) = Inr (p, h')"
    using assms by (simp add: mmatic_realloc_def mem C tag Let_def)
  then obtain h1 h2 q where "mmatic_allocate ?sz ?ow False (c_shared C) h = Inr (p, h1)"
    "memcpy p (MemP c) (c_alloc C) h1 = Inr h2" "mmatic_freeptr (MemP c) h2 = Inr (q, h')"
    by (auto simp: and_then_def split: sum.splits prod.splits)
  with mem C tag show ?thesis by (rule that)
qed

lemma realloc_heap_inv:
  assumes r: "mmatic_realloc mem sz ow h = Inr (p, h')" and inv: "heap_inv h"
  shows "heap_inv h'"
proof (rule realloc_Inr [OF r], goal_cases)
  case e: (1 c C h1 h2 q)
  have 1: "heap_inv h1" using e(4) inv by (rule allocate_heap_inv)
  from e(5) obtain S where "store p 0 (take (c_alloc C) S) h1 = Inr h2"
    by (rule memcpy_Inr)
  then have "heap_inv h2" using 1 by (rule store_heap_inv)
  with e(6) show ?case by (rule freeptr_heap_inv)
qed

lemma realloc_works:
  assumes inv: "heap_inv h" and c: "IS_CHUNK h c" and old: "load h (MemP c) = Inr old"
    and ow: "ow = Null \<or> (\<exists>om. owner_mgr h ow = Inr om)"
    and sz: "sz = 0 \<or> length old \<le> sz"
  shows "\<exists>h' new. mmatic_realloc (MemP c) sz ow h = Inr (MemP (length (chunks h)), h') \<and>
      \<not> IS_CHUNK h (length (chunks h)) \<and>
      IS_CHUNK h' (length (chunks h)) \<and>
      shared_of h' (length (chunks h)) = shared_of h c \<and>
      alloc_of h' (length (chunks h)) = (if sz = 0 then alloc_of h c else sz) \<and>
      load h' (MemP (length (chunks h))) = Inr new \<and>
      length new = (if sz = 0 then alloc_of h c else sz) \<and>
      take (alloc_of h c) new = old \<and>
      \<not> IS_CHUNK h' c \<and> load h' (MemP c) = Inl Undefined \<and>
      heap_inv h'"
proof -
  let ?n = "length (chunks h)"
  from c obtain C where C: "lookup (chunks h) c = Some C" "c_tag C = TAG_CHUNK"
    by (auto simp: IS_CHUNK_def split: option.splits)
  from inv c obtain m where m: "m < length (mgrs h)" "is_chunk_of h m c" "mgr_inv h m" "IS_MGR h m"
    "sized h c" "c < ?n"
    by (rule heap_inv_chunk)
  have Cm: "c_mgr C = Some m" using m(2) C by (simp add: is_chunk_of_def)
  have len: "length old = c_alloc C" "c_payload C = old"
    using m(5) C old by (simp_all add: sized_def load_def)
  have al: "alloc_of h c = c_alloc C" "shared_of h c = c_shared C"
    using C by (simp_all add: alloc_of_def shared_of_def)
  let ?sz = "if sz = 0 then c_alloc C else sz"
  let ?ow = "if ow = Null then (case c_mgr C of None \<Rightarrow> Null | Some m \<Rightarrow> MgrP m) else ow"
  have "\<exists>om. owner_mgr h ?ow = Inr om"
  proof (cases "ow = Null")
    case True
    then show ?thesis using Cm m(4) by (simp add: owner_mgr_def)
  next
    case False
    then show ?thesis using ow by simp
  qed
  then obtain om where "owner_mgr h ?ow = Inr om" ..
  with inv obtain h1 where a: "mmatic_allocate ?sz ?ow False (c_shared C) h = Inr (MemP ?n, h1)"
    using allocate_total by blast
  have 1: "heap_inv h1" using a inv by (rule allocate_heap_inv)
  have l1: "load h1 (MemP c) = Inr old"
    "load h1 (MemP ?n) = Inr (replicate ?sz (if c_shared C then Some 0 else None))"
    "IS_CHUNK h1 c" "IS_CHUNK h1 ?n" "shared_of h1 ?n = c_shared C" "alloc_of h1 ?n = ?sz"
    using m(6) old c by (auto intro: allocate_effect [OF a])
  have fit: "c_alloc C \<le> ?sz" using sz len by auto
  then obtain h2 where st: "store (MemP ?n) 0 (take (c_alloc C) old) h1 = Inr h2"
    using store_total [OF l1(2), of 0 "take (c_alloc C) old"] len by auto
  have mc: "memcpy (MemP ?n) (MemP c) (c_alloc C) h1 = Inr h2"
    using l1(1) st len by (simp add: memcpy_def and_then_def)
  have 2: "heap_inv h2" using st 1 by (rule store_heap_inv)
  have l2: "load h2 (MemP ?n) = Inr (old @ replicate (?sz - c_alloc C) (if c_shared C then Some 0 else None))"
    "IS_CHUNK h2 c" "IS_CHUNK h2 ?n" "shared_of h2 ?n = c_shared C" "alloc_of h2 ?n = ?sz"
  proof (rule store_effect [OF st], goal_cases)
    case e: (1 c' mem)
    have "c' = ?n" "mem = replicate ?sz (if c_shared C then Some 0 else None)"
      using e(1,2) l1(2) by auto
    then show ?case using len by (simp add: e(13))
  next
    show "IS_CHUNK h2 c" "IS_CHUNK h2 ?n" "shared_of h2 ?n = c_shared C" "alloc_of h2 ?n = ?sz"
      using l1 by (auto intro: store_effect [OF st])
  qed
  from freeptr_total [OF 2 l2(2)] obtain h' where fr: "mmatic_freeptr (MemP c) h2 = Inr (Null, h')" ..
  have 3: "heap_inv h'" using fr 2 by (rule freeptr_heap_inv)
  have l3: "load h' (MemP ?n) = Inr (old @ replicate (?sz - c_alloc C) (if c_shared C then Some 0 else None))"
    "\<not> IS_CHUNK h' c" "IS_CHUNK h' ?n" "shared_of h' ?n = c_shared C" "alloc_of h' ?n = ?sz"
    "load h' (MemP c) = Inl Undefined"
    using l2 m(6) by (auto intro: freeptr_effect [OF fr])
  have r: "mmatic_realloc (MemP c) sz ow h = Inr (MemP ?n, h')"
    using C a mc fr by (simp add: mmatic_realloc_def and_then_def Let_def)
  have "\<not> IS_CHUNK h ?n" by (simp add: IS_CHUNK_def lookup_length)
  then show ?thesis
    using r l3 3 fit len by (auto simp: al)
qed

section \<open>Live chunks after each operation\<close>

lemma mgr_inv_ok:
  assumes "mgr_inv h m"
  shows "mgr_ok h m"
proof -
  have t: "traverse h m = live_chunks h m" using assms by (rule traverse_live)
  from assms obtain M f where "lookup (mgrs h) m = Some M" "m_first M = Some f"
    "m_last M = Some (last (f # live_chunks h m))"
    "m_totalloc M = sum_list (map (alloc_of h) (live_chunks h m))"
    by (rule mgr_invE)
  then show ?thesis by (simp add: mgr_ok_def t del: last.simps)
qed

lemma allocate_live:
  assumes "mmatic_allocate sz ow z sh h = Inr (p, h')"
  shows "\<exists>m. owner_mgr h ow = Inr (Some m) \<and>
    (\<forall>m'. live_chunks h' m' = live_chunks h m' @ (if m' = m then [length (chunks h)] else []))"
proof (rule allocate_effect [OF assms], goal_cases)
  case e: (1 m M l)
  have "live_chunks h' m' = live_chunks h m' @ (if m' = m then [length (chunks h)] else [])" for m'
    by (rule live_chunks_snoc) (simp_all add: e)
  with e(1) show ?case by blast
qed

lemma freeptr_live:
  assumes "mmatic_freeptr (MemP c) h = Inr (q, h')"
  shows "live_chunks h' m = filter (\<lambda>a. a \<noteq> c) (live_chunks h m)"
proof (rule freeptr_effect [OF assms], goal_cases)
  case e: (1 c' C P m' M)
  have "c' = c" using e(1) by simp
  then show ?case using e(8,11) by (intro live_chunks_del) simp_all
qed

lemma store_live:
  assumes "store p off bs h = Inr h'"
  shows "live_chunks h' m = live_chunks h m"
proof (rule store_effect [OF assms], goal_cases)
  case e: (1 c mem)
  show ?case by (rule live_chunks_eq) (simp_all add: e)
qed

lemma realloc_live:
  assumes "mmatic_realloc (MemP c) sz ow h = Inr (p, h')"
  shows "\<exists>m. \<forall>m'. live_chunks h' m' =
    filter (\<lambda>a. a \<noteq> c) (live_chunks h m') @ (if m' = m then [length (chunks h)] else [])"
proof (rule realloc_Inr [OF assms], goal_cases)
  case e: (1 c' C h1 h2 q)
  from allocate_live [OF e(4)] obtain m where
    1: "\<And>m'. live_chunks h1 m' = live_chunks h m' @ (if m' = m then [length (chunks h)] else [])"
    by blast
  from e(5) obtain S where "store p 0 (take (c_alloc C) S) h1 = Inr h2"
    by (rule memcpy_Inr)
  then have 2: "live_chunks h2 m' = live_chunks h1 m'" for m'
    by (rule store_live)
  have 3: "live_chunks h' m' = filter (\<lambda>a. a \<noteq> c') (live_chunks h2 m')" for m'
    using e(6) by (rule freeptr_live)
  have "c' < length (chunks h)" using e(2) by (rule lookup_lt)
  then show ?case using e(1) by (auto simp: 1 2 3)
qed

section \<open>Strings in payloads\<close>

lemma cstr_no_null: "0 \<notin> set (cstr s)"
  by (auto simp: cstr_def dest: set_takeWhileD)

lemma cstr_id: "0 \<notin> set s \<Longrightarrow> cstr s = s"
  by (auto simp: cstr_def)

lemma cstr_take: "0 \<notin> set (take n s) \<Longrightarrow> n \<le> length s \<Longrightarrow> take n (cstr s) = take n s"
proof (induction s arbitrary: n)
  case Nil
  then show ?case by (simp add: cstr_def)
next
  case (Cons a s)
  then show ?case by (cases n) (auto simp: cstr_def)
qed

lemma c_str_string: "0 \<notin> set s \<Longrightarrow> c_str (map Some s @ Some 0 # rest) = Some s"
  by (induction s) auto

lemma c_str_SomeD:
  "c_str mem = Some s \<Longrightarrow> 0 \<notin> set s \<and> (\<exists>rest. mem = map Some s @ Some 0 # rest)"
proof (induction mem arbitrary: s rule: c_str.induct)
  case 1
  then show ?case by simp
next
  case (2 bs)
  then show ?case by simp
next
  case (3 b bs)
  show ?case
  proof (cases "b = 0")
    case True
    then show ?thesis using 3 by auto
  next
    case False
    with 3(2) obtain t where t: "c_str bs = Some t" "s = b # t" by auto
    from 3(1) [OF False t(1)] obtain rest where "0 \<notin> set t" "bs = map Some t @ Some 0 # rest"
      by blast
    then show ?thesis using False t(2) by auto
  qed
qed

lemma xstr_inv_storage:
  assumes "xstr_inv h xs" "x_s xs \<noteq> Null"
  obtains c m str rest where "x_s xs = MemP c" "x_mm xs = MgrP m" "m < length (mgrs h)" "heap_inv h"
    "IS_CHUNK h c" "load h (MemP c) = Inr (map Some str @ Some 0 # rest)" "0 \<notin> set str"
    "length str = x_len xs" "length rest + x_len xs = x_a xs" "text_of h xs = str"
proof -
  from assms obtain c m mem str where *: "x_s xs = MemP c" "x_mm xs = MgrP m" "m < length (mgrs h)"
    "heap_inv h" "IS_CHUNK h c" "load h (MemP c) = Inr mem" "length mem = x_a xs + 1"
    "c_str mem = Some str" "length str = x_len xs"
    by (auto simp: xstr_inv_def split: ptr.splits sum.splits option.splits)
  from c_str_SomeD [OF *(8)] obtain rest where r: "0 \<notin> set str" "mem = map Some str @ Some 0 # rest"
    by blast
  have "text_of h xs = str" using * by (simp add: text_of_def content_def)
  moreover have "length rest + x_len xs = x_a xs" using *(7,9) r(2) by simp
  ultimately show ?thesis using that * r by blast
qed

lemma xstr_inv_null:
  assumes "xstr_inv h xs" "x_s xs = Null"
  obtains m where "x_mm xs = MgrP m" "m < length (mgrs h)" "heap_inv h" "x_len xs = 0" "x_a xs = 0"
    "text_of h xs = []"
  using assms
  by (auto simp: xstr_inv_def text_of_def content_def load_def split: ptr.splits)

lemma xstr_invI:
  assumes "heap_inv h" "x_mm xs = MgrP m" "m < length (mgrs h)" "x_s xs = MemP c" "IS_CHUNK h c"
    "load h (MemP c) = Inr (map Some str @ Some 0 # rest)" "0 \<notin> set str"
    "length str = x_len xs" "length rest + x_len xs = x_a xs"
  shows "xstr_inv h xs" "text_of h xs = str" "xstr_ok h xs"
  using assms by (auto simp: xstr_inv_def xstr_ok_def text_of_def content_def c_str_string)

lemma xstr_inv_ok: "xstr_inv h xs \<Longrightarrow> xstr_ok h xs"
  by (auto simp: xstr_inv_def xstr_ok_def split: ptr.splits sum.splits option.splits)

lemma IS_CHUNK_lt: "IS_CHUNK h c \<Longrightarrow> c < length (chunks h)"
  by (auto simp: IS_CHUNK_def dest: lookup_lt split: option.splits)

lemma buffer_store:
  assumes "heap_inv h" "IS_CHUNK h c" "load h (MemP c) = Inr mem" "off + length bs \<le> length mem"
  shows "\<exists>h'. store (MemP c) off bs h = Inr h' \<and> heap_inv h' \<and>
    load h' (MemP c) = Inr (take off mem @ bs @ drop (off + length bs) mem) \<and>
    length (mgrs h') = length (mgrs h) \<and> length (chunks h') = length (chunks h) \<and>
    (\<forall>a. IS_CHUNK h' a = IS_CHUNK h a) \<and>
    (\<forall>a. a \<noteq> c \<longrightarrow> load h' (MemP a) = load h (MemP a))"
proof -
  from store_total [OF assms(3,4)] obtain h' where st: "store (MemP c) off bs h = Inr h'" ..
  have 1: "heap_inv h'" using st assms(1) by (rule store_heap_inv)
  have 2: "length (mgrs h') = length (mgrs h) \<and> length (chunks h') = length (chunks h)"
    by (rule store_effect [OF st]) simp
  have 3: "IS_CHUNK h' a = IS_CHUNK h a" for a
    by (rule store_effect [OF st])
  have 4: "load h' (MemP c) = Inr (take off mem @ bs @ drop (off + length bs) mem) \<and>
      (\<forall>a. a \<noteq> c \<longrightarrow> load h' (MemP a) = load h (MemP a))"
  proof (rule store_effect [OF st], goal_cases)
    case e: (1 c' mem')
    then have "c' = c" "mem' = mem" using assms(3) by auto
    then show ?case by (simp add: e(13))
  qed
  show ?thesis using st 1 4 2 3 by blast
qed

lemma buffer_alloc:
  assumes "heap_inv h" "m < length (mgrs h)"
  shows "\<exists>h'. mmatic_alloc sz (MgrP m) h = Inr (MemP (length (chunks h)), h') \<and> heap_inv h' \<and>
    load h' (MemP (length (chunks h))) = Inr (replicate sz None) \<and>
    length (mgrs h') = length (mgrs h) \<and> length (chunks h') = Suc (length (chunks h)) \<and>
    (\<forall>a. IS_CHUNK h' a = (a = length (chunks h) \<or> IS_CHUNK h a)) \<and>
    (\<forall>a. a \<noteq> length (chunks h) \<longrightarrow> load h' (MemP a) = load h (MemP a))"
proof -
  have "mgr_inv h m" using assms by (rule heap_inv_mgr)
  then have "IS_MGR h m" by (auto simp: IS_MGR_def elim: mgr_invE)
  then have "owner_mgr h (MgrP m) = Inr (Some m)" by (simp add: owner_mgr_def)
  with assms(1) obtain h' where a: "mmatic_allocate sz (MgrP m) False False h = Inr (MemP (length (chunks h)), h')"
    using allocate_total by blast
  have 1: "heap_inv h'" using a assms(1) by (rule allocate_heap_inv)
  have 2: "load h' (MemP a) = (if a = length (chunks h) then Inr (replicate sz None) else load h (MemP a))" for a
    by (rule allocate_effect [OF a]) simp
  have 3: "length (mgrs h') = length (mgrs h) \<and> length (chunks h') = Suc (length (chunks h))"
    by (rule allocate_effect [OF a]) simp
  have 4: "IS_CHUNK h' a = (a = length (chunks h) \<or> IS_CHUNK h a)" for a
    by (rule allocate_effect [OF a])
  show ?thesis using a 1 2 3 4 by (auto simp: mmatic_alloc_def)
qed

lemma buffer_free:
  assumes "heap_inv h" "IS_CHUNK h c"
  shows "\<exists>h'. mmfreeptr (MemP c) h = Inr (Null, h') \<and> heap_inv h' \<and>
    length (mgrs h') = length (mgrs h) \<and> length (chunks h') = length (chunks h) \<and>
    (\<forall>a. IS_CHUNK h' a = (a \<noteq> c \<and> IS_CHUNK h a)) \<and>
    (\<forall>a. a \<noteq> c \<longrightarrow> load h' (MemP a) = load h (MemP a))"
proof -
  from freeptr_total [OF assms] obtain h' where f: "mmatic_freeptr (MemP c) h = Inr (Null, h')" ..
  have 1: "heap_inv h'" using f assms(1) by (rule freeptr_heap_inv)
  have 2: "length (mgrs h') = length (mgrs h) \<and> length (chunks h') = length (chunks h)"
    by (rule freeptr_effect [OF f]) simp
  have 3: "IS_CHUNK h' a = (a \<noteq> c \<and> IS_CHUNK h a) \<and> (a \<noteq> c \<longrightarrow> load h' (MemP a) = load h (MemP a))" for a
  proof (rule freeptr_effect [OF f], goal_cases)
    case e: (1 c' C P m M)
    then have "c' = c" by simp
    then show ?case by (simp add: e(18,19))
  qed
  show ?thesis using f 1 2 3 by (auto simp: mmfreeptr_def)
qed

section \<open>Reservation\<close>

lemma reserve_works:
  assumes inv: "xstr_inv h xs"
  obtains xs' h' c' m rest' where
    "xstr_reserve xs l h = Inr (xs', h')"
    "x_s xs' = MemP c'" "x_mm xs' = MgrP m" "x_mm xs = MgrP m" "m < length (mgrs h')"
    "heap_inv h'" "IS_CHUNK h' c'"
    "load h' (MemP c') = Inr (map Some (text_of h xs) @ Some 0 # rest')"
    "0 \<notin> set (text_of h xs)" "length (text_of h xs) = x_len xs"
    "x_len xs' = x_len xs" "length rest' + x_len xs = x_a xs'"
    "x_a xs' = (if x_a xs > l then x_a xs else l)"
    "length (chunks h') = (if x_a xs > l then length (chunks h) else Suc (length (chunks h)))"
    "x_a xs > l \<Longrightarrow> xs' = xs \<and> h' = h"
    "x_a xs \<le> l \<Longrightarrow> c' = length (chunks h) \<and> rest' = replicate (l - x_len xs) None \<and>
       xs' = xs\<lparr>x_s := MemP (length (chunks h)), x_a := l\<rparr> \<and>
       (\<forall>c. x_s xs = MemP c \<longrightarrow> IS_CHUNK h c \<and> \<not> IS_CHUNK h' c)"
proof (cases "x_s xs = Null")
  case True
  with inv obtain m where n: "x_mm xs = MgrP m" "m < length (mgrs h)" "heap_inv h" "x_len xs = 0"
    "x_a xs = 0" "text_of h xs = []"
    by (rule xstr_inv_null)
  let ?n = "length (chunks h)"
  from n(3,2) obtain h1 where a: "mmatic_alloc (l + 1) (MgrP m) h = Inr (MemP ?n, h1)" "heap_inv h1"
    "load h1 (MemP ?n) = Inr (replicate (l + 1) None)"
    "length (mgrs h1) = length (mgrs h)" "length (chunks h1) = Suc (length (chunks h))"
    "\<forall>a. IS_CHUNK h1 a = (a = ?n \<or> IS_CHUNK h a)"
    "\<forall>a. a \<noteq> ?n \<longrightarrow> load h1 (MemP a) = load h (MemP a)"
    using buffer_alloc [of h m "l + 1"] by blast
  have c1: "IS_CHUNK h1 ?n" using a by simp
  from a(2) c1 a(3) obtain h2 where s: "store (MemP ?n) 0 [Some 0] h1 = Inr h2" "heap_inv h2"
    "load h2 (MemP ?n) = Inr (take 0 (replicate (l + 1) None) @ [Some 0] @ drop (0 + length [Some (0::byte)]) (replicate (l + 1) None))"
    "length (mgrs h2) = length (mgrs h1)" "length (chunks h2) = length (chunks h1)"
    "\<forall>a. IS_CHUNK h2 a = IS_CHUNK h1 a"
    using buffer_store [of h1 ?n "replicate (l + 1) None" 0 "[Some 0]"] by auto
  have r: "xstr_reserve xs l h = Inr (xs\<lparr>x_s := MemP ?n, x_len := 0, x_a := l\<rparr>, h2)"
    using True n(1,5) a(1) s(1) by (simp add: xstr_reserve_def and_then_def)
  have e: "xs\<lparr>x_s := MemP ?n, x_len := 0, x_a := l\<rparr> = xs\<lparr>x_s := MemP ?n, x_a := l\<rparr>"
    using n(4) by simp
  show ?thesis
    by (rule that [of "xs\<lparr>x_s := MemP ?n, x_a := l\<rparr>" h2 ?n m "replicate l None"])
      (use r e n a s c1 True in \<open>simp_all\<close>)
next
  case False
  with inv obtain c m str rest where i: "x_s xs = MemP c" "x_mm xs = MgrP m" "m < length (mgrs h)"
    "heap_inv h" "IS_CHUNK h c" "load h (MemP c) = Inr (map Some str @ Some 0 # rest)" "0 \<notin> set str"
    "length str = x_len xs" "length rest + x_len xs = x_a xs" "text_of h xs = str"
    by (rule xstr_inv_storage)
  show ?thesis
  proof (cases "x_a xs > l")
    case True
    then have "xstr_reserve xs l h = Inr (xs, h)" by (simp add: xstr_reserve_def)
    then show ?thesis
      by (rule that [of xs h c m rest]) (use i True in simp_all)
  next
    case le: False
    let ?n = "length (chunks h)"
    have cn: "c \<noteq> ?n" using IS_CHUNK_lt [OF i(5)] by simp
    from i(4,3) obtain h1 where a: "mmatic_alloc (l + 1) (MgrP m) h = Inr (MemP ?n, h1)" "heap_inv h1"
      "load h1 (MemP ?n) = Inr (replicate (l + 1) None)"
      "length (mgrs h1) = length (mgrs h)" "length (chunks h1) = Suc (length (chunks h))"
      "\<forall>a. IS_CHUNK h1 a = (a = ?n \<or> IS_CHUNK h a)"
      "\<forall>a. a \<noteq> ?n \<longrightarrow> load h1 (MemP a) = load h (MemP a)"
      using buffer_alloc [of h m "l + 1"] by blast
    have c1: "IS_CHUNK h1 ?n" using a by simp
    have fit: "0 + length (map Some (str @ [0::byte])) \<le> length (replicate (l + 1) (None :: byte option))"
      using i(8,9) le by simp
    from a(2) c1 a(3) fit obtain h2 where s: "store (MemP ?n) 0 (map Some (str @ [0])) h1 = Inr h2" "heap_inv h2"
      "load h2 (MemP ?n) = Inr (take 0 (replicate (l + 1) None) @ map Some (str @ [0]) @
          drop (0 + length (map Some (str @ [0::byte]))) (replicate (l + 1) None))"
      "length (mgrs h2) = length (mgrs h1)" "length (chunks h2) = length (chunks h1)"
      "\<forall>a. IS_CHUNK h2 a = IS_CHUNK h1 a"
      "\<forall>a. a \<noteq> ?n \<longrightarrow> load h2 (MemP a) = load h1 (MemP a)"
      using buffer_store [of h1 ?n "replicate (l + 1) None" 0 "map Some (str @ [0])"] by blast
    have cp: "strcpy (MemP ?n) (MemP c) h1 = Inr h2"
      using a cn i(6,7) s(1) by (simp add: strcpy_def and_then_def c_str_string)
    have c2: "IS_CHUNK h2 c" using i(5) s a by simp
    from s(2) c2 obtain h3 where f: "mmfreeptr (MemP c) h2 = Inr (Null, h3)" "heap_inv h3"
      "length (mgrs h3) = length (mgrs h2)" "length (chunks h3) = length (chunks h2)"
      "\<forall>a. IS_CHUNK h3 a = (a \<noteq> c \<and> IS_CHUNK h2 a)"
      "\<forall>a. a \<noteq> c \<longrightarrow> load h3 (MemP a) = load h2 (MemP a)"
      using buffer_free [of h2 c] by blast
    have r: "xstr_reserve xs l h = Inr (xs\<lparr>x_s := MemP ?n, x_a := l\<rparr>, h3)"
      using le i(1,2) a(1) cp f(1) by (simp add: xstr_reserve_def and_then_def)
    have ld: "load h3 (MemP ?n) = Inr (map Some str @ Some 0 # replicate (l - x_len xs) None)"
      using cn i(8) f s(3) by simp
    show ?thesis
      by (rule that [of "xs\<lparr>x_s := MemP ?n, x_a := l\<rparr>" h3 ?n m "replicate (l - x_len xs) None"])
        (use r ld i le a s f c1 cn in \<open>simp_all\<close>)
  qed
qed


lemma reserve_ex:
  assumes "xstr_inv h xs"
  shows "\<exists>xs' h' c' m rest'.
    xstr_reserve xs l h = Inr (xs', h') \<and>
    x_s xs' = MemP c' \<and> x_mm xs' = MgrP m \<and> x_mm xs = MgrP m \<and> m < length (mgrs h') \<and>
    heap_inv h' \<and> IS_CHUNK h' c' \<and>
    load h' (MemP c') = Inr (map Some (text_of h xs) @ Some 0 # rest') \<and>
    0 \<notin> set (text_of h xs) \<and> length (text_of h xs) = x_len xs \<and>
    x_len xs' = x_len xs \<and> length rest' + x_len xs = x_a xs' \<and>
    x_a xs' = (if x_a xs > l then x_a xs else l) \<and>
    length (chunks h') = (if x_a xs > l then length (chunks h) else Suc (length (chunks h))) \<and>
    (x_a xs > l \<longrightarrow> xs' = xs \<and> h' = h) \<and>
    (x_a xs \<le> l \<longrightarrow> c' = length (chunks h) \<and> rest' = replicate (l - x_len xs) None \<and>
       xs' = xs\<lparr>x_s := MemP (length (chunks h)), x_a := l\<rparr> \<and>
       (\<forall>c. x_s xs = MemP c \<longrightarrow> IS_CHUNK h c \<and> \<not> IS_CHUNK h' c))"
proof (rule reserve_works [OF assms, of l], goal_cases)
  case (1 xs' h' c' m rest')
  then show ?case by blast
qed

section \<open>The mutators of a buffer\<close>

lemma buffer_write:
  assumes "heap_inv h" "IS_CHUNK h c" "load h (MemP c) = Inr (map Some old @ Some 0 # rest)"
    and "k \<le> length old" "k + length t \<le> length old + length rest"
  shows "\<exists>h' rest'. store (MemP c) k (map Some (t @ [0])) h = Inr h' \<and> heap_inv h' \<and>
    IS_CHUNK h' c \<and> load h' (MemP c) = Inr (map Some (take k old @ t) @ Some 0 # rest') \<and>
    length rest' + (k + length t) = length old + length rest \<and>
    length (mgrs h') = length (mgrs h) \<and> length (chunks h') = length (chunks h)"
proof -
  let ?mem = "map Some old @ Some 0 # rest"
  have "k + length (map Some (t @ [0::byte])) \<le> length ?mem" using assms(5) by simp
  from buffer_store [OF assms(1,2,3) this] obtain h' where
    s: "store (MemP c) k (map Some (t @ [0])) h = Inr h'" "heap_inv h'"
    "load h' (MemP c) = Inr (take k ?mem @ map Some (t @ [0]) @ drop (k + length (map Some (t @ [0::byte]))) ?mem)"
    "length (mgrs h') = length (mgrs h)" "length (chunks h') = length (chunks h)"
    "\<forall>a. IS_CHUNK h' a = IS_CHUNK h a"
    by blast
  have "take k ?mem = map Some (take k old)" using assms(4) by (simp add: take_map)
  then have "load h' (MemP c) = Inr (map Some (take k old @ t) @ Some 0 # drop (k + length t + 1) ?mem)"
    using s(3) by simp
  moreover have "length (drop (k + length t + 1) ?mem) + (k + length t) = length old + length rest"
    using assms(5) by simp
  ultimately show ?thesis using s assms(2) by blast
qed

lemma set_works:
  assumes inv: "xstr_inv h xs"
  shows "\<exists>xs' h'. xstr_set xs (Some s) h = Inr (xs', h') \<and> xstr_inv h' xs' \<and>
    text_of h' xs' = cstr s \<and> x_len xs' = length (cstr s) \<and> x_s xs' \<noteq> Null \<and> x_mm xs' = x_mm xs"
proof -
  from reserve_ex [OF inv, of "length (cstr s)"] obtain xs1 h1 c m rest where
    r: "xstr_reserve xs (length (cstr s)) h = Inr (xs1, h1)"
    "x_s xs1 = MemP c" "x_mm xs1 = MgrP m" "x_mm xs = MgrP m" "m < length (mgrs h1)"
    "heap_inv h1" "IS_CHUNK h1 c"
    "load h1 (MemP c) = Inr (map Some (text_of h xs) @ Some 0 # rest)"
    "length (text_of h xs) = x_len xs"
    "x_len xs1 = x_len xs" "length rest + x_len xs = x_a xs1"
    "x_a xs1 = (if x_a xs > length (cstr s) then x_a xs else length (cstr s))"
    by blast
  have "0 + length (cstr s) \<le> length (text_of h xs) + length rest"
    using r(9,11,12) by (simp split: if_splits)
  from buffer_write [OF r(6,7,8) _ this] obtain h2 rest' where
    w: "store (MemP c) 0 (map Some (cstr s @ [0])) h1 = Inr h2" "heap_inv h2" "IS_CHUNK h2 c"
    "load h2 (MemP c) = Inr (map Some (take 0 (text_of h xs) @ cstr s) @ Some 0 # rest')"
    "length rest' + (0 + length (cstr s)) = length (text_of h xs) + length rest"
    "length (mgrs h2) = length (mgrs h1)"
    by auto
  let ?xs = "xs1\<lparr>x_len := length (cstr s)\<rparr>"
  have e: "xstr_set xs (Some s) h = Inr (?xs, h2)"
    using r(1,2) w(1) by (simp add: xstr_set_def and_then_def strcpy_arg_def Let_def)
  have "xstr_inv h2 ?xs" "text_of h2 ?xs = cstr s"
    by (rule xstr_invI [of h2 ?xs m c "cstr s" rest']; use r w cstr_no_null in simp)+
  then show ?thesis using e r(2,3,4) by simp
qed


lemma append_works:
  assumes inv: "xstr_inv h xs"
  shows "\<exists>xs' h'. xstr_append xs s h = Inr (xs', h') \<and> xstr_inv h' xs' \<and>
    text_of h' xs' = text_of h xs @ (case s of None \<Rightarrow> [] | Some str \<Rightarrow> cstr str) \<and>
    x_mm xs' = x_mm xs"
proof (cases "case s of None \<Rightarrow> True | Some str \<Rightarrow> cstr str = []")
  case True
  then have "xstr_append xs s h = Inr (xs, h)"
    by (simp add: xstr_append_def split: option.splits)
  then show ?thesis using inv True by (auto split: option.splits)
next
  case False
  then obtain str where s: "s = Some str" "cstr str \<noteq> []" by (auto split: option.splits)
  let ?l = "length (cstr str) + x_len xs"
  from reserve_ex [OF inv, of ?l] obtain xs1 h1 c m rest where
    r: "xstr_reserve xs ?l h = Inr (xs1, h1)"
    "x_s xs1 = MemP c" "x_mm xs1 = MgrP m" "x_mm xs = MgrP m" "m < length (mgrs h1)"
    "heap_inv h1" "IS_CHUNK h1 c"
    "load h1 (MemP c) = Inr (map Some (text_of h xs) @ Some 0 # rest)"
    "0 \<notin> set (text_of h xs)" "length (text_of h xs) = x_len xs"
    "x_len xs1 = x_len xs" "length rest + x_len xs = x_a xs1"
    "x_a xs1 = (if x_a xs > ?l then x_a xs else ?l)"
    by blast
  have "length (text_of h xs) + length (cstr str) \<le> length (text_of h xs) + length rest"
    using r(10,12,13) by (simp split: if_splits)
  from buffer_write [OF r(6,7,8) order_refl this] obtain h2 rest' where
    w: "store (MemP c) (length (text_of h xs)) (map Some (cstr str @ [0])) h1 = Inr h2" "heap_inv h2"
    "IS_CHUNK h2 c"
    "load h2 (MemP c) = Inr (map Some (take (length (text_of h xs)) (text_of h xs) @ cstr str) @ Some 0 # rest')"
    "length rest' + (length (text_of h xs) + length (cstr str)) = length (text_of h xs) + length rest"
    "length (mgrs h2) = length (mgrs h1)"
    by auto
  let ?xs = "xs1\<lparr>x_len := ?l\<rparr>"
  have e: "xstr_append xs s h = Inr (?xs, h2)"
    using s r(1,2,8,9) w(1)
    by (simp add: xstr_append_def and_then_def strcat_arg_def Let_def c_str_string)
  have "xstr_inv h2 ?xs" "text_of h2 ?xs = text_of h xs @ cstr str"
    by (rule xstr_invI [of h2 ?xs m c "text_of h xs @ cstr str" rest']; use r w cstr_no_null in simp)+
  then show ?thesis using e s r(3,4) by simp
qed

lemma set_take_no_null: "0 \<notin> set (take n (cstr s))"
  using cstr_no_null [of s] by (auto dest: in_set_takeD)

lemma append_size_works:
  assumes inv: "xstr_inv h xs" and n: "case s of None \<Rightarrow> True | Some str \<Rightarrow> n \<le> length (cstr str)"
  shows "\<exists>xs' h'. xstr_append_size xs s (int n) h = Inr (xs', h') \<and> xstr_inv h' xs' \<and>
    text_of h' xs' = text_of h xs @ (case s of None \<Rightarrow> [] | Some str \<Rightarrow> take n (cstr str)) \<and>
    x_mm xs' = x_mm xs"
proof (cases "s = None \<or> n = 0")
  case True
  then have "xstr_append_size xs s (int n) h = Inr (xs, h)"
    by (auto simp: xstr_append_size_def split: option.splits)
  then show ?thesis using inv True by (auto split: option.splits)
next
  case False
  then obtain str where s: "s = Some str" "n \<noteq> 0" "n \<le> length (cstr str)"
    using n by (auto split: option.splits)
  let ?l = "x_len xs + n"
  from reserve_ex [OF inv, of ?l] obtain xs1 h1 c m rest where
    r: "xstr_reserve xs ?l h = Inr (xs1, h1)"
    "x_s xs1 = MemP c" "x_mm xs1 = MgrP m" "x_mm xs = MgrP m" "m < length (mgrs h1)"
    "heap_inv h1" "IS_CHUNK h1 c"
    "load h1 (MemP c) = Inr (map Some (text_of h xs) @ Some 0 # rest)"
    "0 \<notin> set (text_of h xs)" "length (text_of h xs) = x_len xs"
    "x_len xs1 = x_len xs" "length rest + x_len xs = x_a xs1"
    "x_a xs1 = (if x_a xs > ?l then x_a xs else ?l)"
    by blast
  have "length (text_of h xs) + length (take n (cstr str)) \<le> length (text_of h xs) + length rest"
    using r(10,12,13) s(3) by (simp split: if_splits)
  from buffer_write [OF r(6,7,8) order_refl this] obtain h2 rest' where
    w: "store (MemP c) (length (text_of h xs)) (map Some (take n (cstr str) @ [0])) h1 = Inr h2"
    "heap_inv h2" "IS_CHUNK h2 c"
    "load h2 (MemP c) = Inr (map Some (take (length (text_of h xs)) (text_of h xs) @ take n (cstr str)) @ Some 0 # rest')"
    "length rest' + (length (text_of h xs) + length (take n (cstr str))) = length (text_of h xs) + length rest"
    "length (mgrs h2) = length (mgrs h1)"
    by auto
  let ?xs = "xs1\<lparr>x_len := ?l\<rparr>"
  have e: "xstr_append_size xs s (int n) h = Inr (?xs, h2)"
    using s r(1,2,8,9) w(1)
    by (simp add: xstr_append_size_def and_then_def strncat_arg_def Let_def c_str_string nat_int_add)
  have "xstr_inv h2 ?xs" "text_of h2 ?xs = text_of h xs @ take n (cstr str)"
    by (rule xstr_invI [of h2 ?xs m c "text_of h xs @ take n (cstr str)" rest'];
        use r w s(3) set_take_no_null in simp)+
  then show ?thesis using e s r(3,4) by simp
qed


lemma poke_two:
  assumes "length a = n"
  shows "take n (a @ drop n m) @ [z] @ drop (n + length [z]) (a @ drop n m) = a @ z # drop (Suc n) m"
  using assms by simp

lemma set_size_works:
  assumes inv: "xstr_inv h xs"
  shows "\<exists>xs' h' c rest. xstr_set_size xs (Some s) (int n) h = Inr (xs', h') \<and>
    x_s xs' = MemP c \<and> x_len xs' = n \<and> x_mm xs' = x_mm xs \<and> heap_inv h' \<and> IS_CHUNK h' c \<and>
    load h' (MemP c) =
      Inr (map Some (take n (cstr s) @ replicate (n - length (cstr s)) 0) @ Some 0 # rest) \<and>
    length rest + n = x_a xs' \<and>
    (n \<le> length (cstr s) \<longrightarrow> xstr_inv h' xs' \<and> text_of h' xs' = take n (cstr s))"
proof -
  from reserve_ex [OF inv, of n] obtain xs1 h1 c m rest where
    r: "xstr_reserve xs n h = Inr (xs1, h1)"
    "x_s xs1 = MemP c" "x_mm xs1 = MgrP m" "x_mm xs = MgrP m" "m < length (mgrs h1)"
    "heap_inv h1" "IS_CHUNK h1 c"
    "load h1 (MemP c) = Inr (map Some (text_of h xs) @ Some 0 # rest)"
    "length (text_of h xs) = x_len xs"
    "x_len xs1 = x_len xs" "length rest + x_len xs = x_a xs1"
    "x_a xs1 = (if x_a xs > n then x_a xs else n)"
    by blast
  let ?mem = "map Some (text_of h xs) @ Some 0 # rest"
  let ?t = "take n (cstr s) @ replicate (n - length (cstr s)) 0"
  have lt: "length ?t = n" by simp
  have len: "length ?mem = x_a xs1 + 1" "n \<le> x_a xs1"
    using r(9,11,12) by (simp_all split: if_splits)
  have "0 + length (map Some ?t) \<le> length ?mem" using len lt by simp
  from buffer_store [OF r(6,7,8) this] obtain h2 where
    s1: "store (MemP c) 0 (map Some ?t) h1 = Inr h2" "heap_inv h2"
    "load h2 (MemP c) = Inr (take 0 ?mem @ map Some ?t @ drop (0 + length (map Some ?t)) ?mem)"
    "length (mgrs h2) = length (mgrs h1)" "\<forall>a. IS_CHUNK h2 a = IS_CHUNK h1 a"
    by blast
  let ?mem1 = "map Some ?t @ drop n ?mem"
  have l1: "load h2 (MemP c) = Inr ?mem1" using s1(3) lt by simp
  have c2: "IS_CHUNK h2 c" using r(7) s1(5) by simp
  have "n + length [Some (0::byte)] \<le> length ?mem1" using len lt by simp
  from buffer_store [OF s1(2) c2 l1 this] obtain h3 where
    s2: "store (MemP c) n [Some 0] h2 = Inr h3" "heap_inv h3"
    "load h3 (MemP c) = Inr (take n ?mem1 @ [Some 0] @ drop (n + length [Some (0::byte)]) ?mem1)"
    "length (mgrs h3) = length (mgrs h2)" "\<forall>a. IS_CHUNK h3 a = IS_CHUNK h2 a"
    by blast
  let ?rest = "drop (Suc n) ?mem"
  have "take n ?mem1 @ [Some 0] @ drop (n + length [Some (0::byte)]) ?mem1 = map Some ?t @ Some 0 # ?rest"
    by (rule poke_two) simp
  then have l3: "load h3 (MemP c) = Inr (map Some ?t @ Some 0 # ?rest)"
    using s2(3) by (simp only:)
  have lr: "length ?rest + n = x_a xs1" using len by simp
  let ?xs = "xs1\<lparr>x_len := n\<rparr>"
  have e: "xstr_set_size xs (Some s) (int n) h = Inr (?xs, h3)"
    using r(1,2) s1(1) s2(1) by (simp add: xstr_set_size_def and_then_def strncpy_arg_def Let_def)
  have c3: "IS_CHUNK h3 c" using c2 s2(5) by simp
  have i: "xstr_inv h3 ?xs \<and> text_of h3 ?xs = take n (cstr s)" if "n \<le> length (cstr s)"
  proof -
    have "?t = take n (cstr s)" using that by simp
    then have "load h3 (MemP c) = Inr (map Some (take n (cstr s)) @ Some 0 # ?rest)"
      using l3 by simp
    then have "xstr_inv h3 ?xs" "text_of h3 ?xs = take n (cstr s)"
      by (rule xstr_invI [of h3 ?xs m c "take n (cstr s)" ?rest, rotated 5];
          use r s1 s2 c3 lr that set_take_no_null in simp)+
    then show ?thesis by simp
  qed
  show ?thesis
    using e r(2,3,4) s2(2) c3 l3 lr i by (intro exI [of _ ?xs] exI [of _ h3] exI [of _ c] exI [of _ ?rest]) simp
qed

lemma append_char_works:
  assumes inv: "xstr_inv h xs"
  shows "\<exists>xs' h'. xstr_append_char xs c h = Inr (xs', h') \<and> xstr_inv h' xs' \<and>
    text_of h' xs' = text_of h xs @ (if c = 0 then [] else [c]) \<and> x_mm xs' = x_mm xs \<and>
    x_len xs' = x_len xs + (if c = 0 then 0 else 1) \<and>
    (c \<noteq> 0 \<longrightarrow>
      x_a xs' = (if x_a xs > max (x_len xs + 2) (3 * x_len xs div 2) then x_a xs
                 else max (x_len xs + 2) (3 * x_len xs div 2)) \<and>
      length (chunks h') = (if x_a xs > max (x_len xs + 2) (3 * x_len xs div 2) then length (chunks h)
                 else Suc (length (chunks h))) \<and>
      (x_a xs \<le> max (x_len xs + 2) (3 * x_len xs div 2) \<longrightarrow> x_s xs' = MemP (length (chunks h))) \<and>
      (x_a xs > max (x_len xs + 2) (3 * x_len xs div 2) \<longrightarrow> x_s xs' = x_s xs))"
proof (cases "c = 0")
  case True
  then have "xstr_append_char xs c h = Inr (xs, h)" by (simp add: xstr_append_char_def)
  then show ?thesis using inv True by simp
next
  case False
  let ?l = "max (x_len xs + 2) (3 * x_len xs div 2)"
  from reserve_ex [OF inv, of ?l] obtain xs1 h1 b m rest where
    r: "xstr_reserve xs ?l h = Inr (xs1, h1)"
    "x_s xs1 = MemP b" "x_mm xs1 = MgrP m" "x_mm xs = MgrP m" "m < length (mgrs h1)"
    "heap_inv h1" "IS_CHUNK h1 b"
    "load h1 (MemP b) = Inr (map Some (text_of h xs) @ Some 0 # rest)"
    "0 \<notin> set (text_of h xs)" "length (text_of h xs) = x_len xs"
    "x_len xs1 = x_len xs" "length rest + x_len xs = x_a xs1"
    "x_a xs1 = (if x_a xs > ?l then x_a xs else ?l)"
    "length (chunks h1) = (if x_a xs > ?l then length (chunks h) else Suc (length (chunks h)))"
    "x_a xs > ?l \<longrightarrow> xs1 = xs \<and> h1 = h"
    "x_a xs \<le> ?l \<longrightarrow> b = length (chunks h)"
    by blast
  let ?old = "text_of h xs"
  let ?mem = "map Some ?old @ Some 0 # rest"
  have lr: "2 \<le> length rest" using r(12,13) by (simp split: if_splits)
  then obtain r0 r1 rest2 where rest: "rest = r0 # r1 # rest2"
    by (cases rest; cases "tl rest") auto
  have "x_len xs + length [Some c] \<le> length ?mem" using r(10) by simp
  from buffer_store [OF r(6,7,8) this] obtain h2 where
    s1: "store (MemP b) (x_len xs) [Some c] h1 = Inr h2" "heap_inv h2"
    "load h2 (MemP b) = Inr (take (x_len xs) ?mem @ [Some c] @ drop (x_len xs + length [Some c]) ?mem)"
    "length (mgrs h2) = length (mgrs h1)" "length (chunks h2) = length (chunks h1)"
    "\<forall>a. IS_CHUNK h2 a = IS_CHUNK h1 a"
    by blast
  let ?mem1 = "map Some ?old @ Some c # r0 # r1 # rest2"
  have l1: "load h2 (MemP b) = Inr ?mem1" using s1(3) r(10) rest by simp
  have c2: "IS_CHUNK h2 b" using r(7) s1(6) by simp
  have "(x_len xs + 1) + length [Some (0::byte)] \<le> length ?mem1" using r(10) by simp
  from buffer_store [OF s1(2) c2 l1 this] obtain h3 where
    s2: "store (MemP b) (x_len xs + 1) [Some 0] h2 = Inr h3" "heap_inv h3"
    "load h3 (MemP b) = Inr (take (x_len xs + 1) ?mem1 @ [Some 0] @
        drop ((x_len xs + 1) + length [Some (0::byte)]) ?mem1)"
    "length (mgrs h3) = length (mgrs h2)" "length (chunks h3) = length (chunks h2)"
    "\<forall>a. IS_CHUNK h3 a = IS_CHUNK h2 a"
    by blast
  have l3: "load h3 (MemP b) = Inr (map Some (?old @ [c]) @ Some 0 # r1 # rest2)"
    using s2(3) r(10) by simp
  let ?xs = "xs1\<lparr>x_len := x_len xs1 + 1\<rparr>"
  have e: "xstr_append_char xs c h = Inr (?xs, h3)"
    using False r(1,2,11) s1(1) s2(1) by (simp add: xstr_append_char_def and_then_def Let_def)
  have c3: "IS_CHUNK h3 b" using c2 s2(6) by simp
  have "xstr_inv h3 ?xs" "text_of h3 ?xs = ?old @ [c]"
    by (rule xstr_invI [of h3 ?xs m b "?old @ [c]" "r1 # rest2"];
        use r(2,3,5,9,10,11,12) rest s1(4) s2(2,4) c3 l3 False in simp)+
  moreover have "x_mm ?xs = x_mm xs" "x_len ?xs = x_len xs + 1" "x_a ?xs = x_a xs1" "x_s ?xs = MemP b"
    "length (chunks h3) = length (chunks h1)"
    using r(2,3,4,11) s1(5) s2(5) by simp_all
  moreover have "x_a xs > ?l \<longrightarrow> MemP b = x_s xs" using r(2,15) by auto
  ultimately show ?thesis
    using e False r(13,14,16)
    by (intro exI [of _ ?xs] exI [of _ h3]) (simp del: max.absorb1 max.absorb2 max.absorb3 max.absorb4)
qed

lemma free_works:
  assumes inv: "xstr_inv h xs"
  shows "\<exists>h'. xstr_free xs h = Inr (xs\<lparr>x_s := Null, x_len := 0, x_a := 0\<rparr>, h') \<and>
    xstr_inv h' (xs\<lparr>x_s := Null, x_len := 0, x_a := 0\<rparr>) \<and>
    (x_s xs = Null \<longrightarrow> h' = h \<and> xs\<lparr>x_s := Null, x_len := 0, x_a := 0\<rparr> = xs) \<and>
    (\<forall>c. x_s xs = MemP c \<longrightarrow> IS_CHUNK h c \<and> \<not> IS_CHUNK h' c)"
proof (cases "x_s xs = Null")
  case True
  with inv have n: "x_len xs = 0" "x_a xs = 0"
    by (auto elim: xstr_inv_null)
  have e: "xs\<lparr>x_s := Null, x_len := 0, x_a := 0\<rparr> = xs" using True n by simp
  have "xstr_free xs h = Inr (xs, h)" using True by (simp add: xstr_free_def)
  then show ?thesis using inv True e by simp
next
  case False
  with inv obtain c m where i: "x_s xs = MemP c" "x_mm xs = MgrP m" "m < length (mgrs h)"
    "heap_inv h" "IS_CHUNK h c"
    by (rule xstr_inv_storage)
  from buffer_free [OF i(4,5)] obtain h' where f: "mmfreeptr (MemP c) h = Inr (Null, h')" "heap_inv h'"
    "length (mgrs h') = length (mgrs h)" "\<forall>a. IS_CHUNK h' a = (a \<noteq> c \<and> IS_CHUNK h a)"
    by blast
  have "xstr_free xs h = Inr (xs\<lparr>x_s := Null, x_len := 0, x_a := 0\<rparr>, h')"
    using i(1) f(1) by (simp add: xstr_free_def and_then_def)
  moreover have "xstr_inv h' (xs\<lparr>x_s := Null, x_len := 0, x_a := 0\<rparr>)"
    using i(2,3) f(2,3) by (simp add: xstr_inv_def)
  ultimately show ?thesis using i(1,5) f(4) by simp
qed

lemma blank_inv:
  "heap_inv h \<Longrightarrow> m < length (mgrs h) \<Longrightarrow> xstr_inv h \<lparr>x_s = Null, x_len = 0, x_a = 0, x_mm = MgrP m\<rparr>"
  by (simp add: xstr_inv_def)

lemma blank_text: "text_of h \<lparr>x_s = Null, x_len = 0, x_a = 0, x_mm = mm\<rparr> = []"
  by (simp add: text_of_def content_def load_def)

lemma init_val_works:
  assumes "heap_inv h" "m < length (mgrs h)"
  shows "\<exists>xs' h'. xstr_init_val (Some s) (MgrP m) h = Inr (xs', h') \<and> xstr_inv h' xs' \<and>
    text_of h' xs' = cstr s \<and> x_len xs' = length (cstr s) \<and> x_s xs' \<noteq> Null \<and> x_mm xs' = MgrP m"
  using set_works [OF blank_inv [OF assms], of s] by (simp add: xstr_init_val_def)

lemma init_works:
  assumes "heap_inv h" "m < length (mgrs h)"
  shows "\<exists>xs' h'. xstr_init (MgrP m) h = Inr (xs', h') \<and> xstr_inv h' xs' \<and>
    text_of h' xs' = [] \<and> x_len xs' = 0 \<and> x_s xs' \<noteq> Null \<and> x_mm xs' = MgrP m"
  using init_val_works [OF assms, of "[]"] by (simp add: xstr_init_def cstr_def)

lemma create_works:
  assumes "heap_inv h" "m < length (mgrs h)"
  shows "\<exists>p xs' h'. xstr_create n s (MgrP m) h = Inr ((p, xs'), h') \<and> xstr_inv h' xs' \<and>
    text_of h' xs' = (case s of None \<Rightarrow> [] | Some str \<Rightarrow> cstr str) \<and> x_s xs' \<noteq> Null \<and>
    x_mm xs' = MgrP m"
proof -
  from buffer_alloc [OF assms, of n] obtain h1 where
    a: "mmatic_alloc n (MgrP m) h = Inr (MemP (length (chunks h)), h1)" "heap_inv h1"
    "length (mgrs h1) = length (mgrs h)"
    by blast
  have m1: "m < length (mgrs h1)" using assms(2) a(3) by simp
  let ?s = "case s of None \<Rightarrow> [] | Some str \<Rightarrow> str"
  from init_val_works [OF a(2) m1, of ?s] obtain xs' h' where
    i: "xstr_init_val (Some ?s) (MgrP m) h1 = Inr (xs', h')" "xstr_inv h' xs'"
    "text_of h' xs' = cstr ?s" "x_s xs' \<noteq> Null" "x_mm xs' = MgrP m"
    by blast
  have s: "(case s of None \<Rightarrow> Some [] | Some s \<Rightarrow> Some s) = Some ?s" by (simp split: option.splits)
  have "xstr_create n s (MgrP m) h = Inr ((MemP (length (chunks h)), xs'), h')"
    using a(1) i(1) by (simp add: xstr_create_def and_then_def s)
  moreover have "cstr ?s = (case s of None \<Rightarrow> [] | Some str \<Rightarrow> cstr str)"
    by (simp add: cstr_def split: option.splits)
  ultimately show ?thesis using i by auto
qed

lemma set_format_works:
  assumes inv: "xstr_inv h xs" and out: "0 \<notin> set out2" "out1 \<noteq> [] \<or> x_len xs = 0"
    and same: "length out2 = length out1"
  shows "\<exists>xs' h'. xstr_set_format xs out1 out2 h = Inr ((int (length out1), xs'), h') \<and> xstr_inv h' xs' \<and>
    text_of h' xs' = out2 \<and> x_mm xs' = x_mm xs \<and> x_s xs' \<noteq> Null"
proof -
  from reserve_ex [OF inv, of "length out2"] obtain xs1 h1 c m rest where
    r: "xstr_reserve xs (length out2) h = Inr (xs1, h1)"
    "x_s xs1 = MemP c" "x_mm xs1 = MgrP m" "x_mm xs = MgrP m" "m < length (mgrs h1)"
    "heap_inv h1" "IS_CHUNK h1 c"
    "load h1 (MemP c) = Inr (map Some (text_of h xs) @ Some 0 # rest)"
    "length (text_of h xs) = x_len xs"
    "x_len xs1 = x_len xs" "length rest + x_len xs = x_a xs1"
    "x_a xs1 = (if x_a xs > length out2 then x_a xs else length out2)"
    by blast
  have fit: "length out2 \<le> x_a xs1" using r(12) by (simp split: if_splits)
  then have "0 + length out2 \<le> length (text_of h xs) + length rest"
    using r(9,11) by simp
  from buffer_write [OF r(6,7,8) _ this] obtain h2 rest' where
    w: "store (MemP c) 0 (map Some (out2 @ [0])) h1 = Inr h2" "heap_inv h2" "IS_CHUNK h2 c"
    "load h2 (MemP c) = Inr (map Some (take 0 (text_of h xs) @ out2) @ Some 0 # rest')"
    "length rest' + (0 + length out2) = length (text_of h xs) + length rest"
    "length (mgrs h2) = length (mgrs h1)"
    by auto
  let ?xs = "if out2 = [] then xs1 else xs1\<lparr>x_len := length out2\<rparr>"
  have v: "vsnprintf (MemP c) 0 (x_a xs1 + 1) out2 h1 = Inr (int (length out2), h2)"
    using w(1) fit by (simp add: vsnprintf_def and_then_def)
  have e: "xstr_set_format xs out1 out2 h = Inr ((int (length out2), ?xs), h2)"
    using r(1,2) v by (simp add: xstr_set_format_def and_then_def Let_def vsnprintf_def same [symmetric])
  have "out2 \<noteq> [] \<or> x_len xs = 0" using out(2) same by auto
  then have l: "x_len ?xs = length out2" using r(10) by auto
  have "xstr_inv h2 ?xs" "text_of h2 ?xs = out2"
    by (rule xstr_invI [of h2 ?xs m c out2 rest']; use r(2,3,5,9,10,11) w l out(1) in \<open>simp split: if_splits\<close>)+
  moreover have "int (length out2) = int (length out1)" using same by simp
  ultimately show ?thesis using e r(2,3,4) by (intro exI [of _ ?xs] exI [of _ h2]) (simp only:, simp)
qed

lemma append_format_works:
  assumes inv: "xstr_inv h xs" and out: "0 \<notin> set out2" and same: "length out2 = length out1"
  shows "\<exists>xs' h'. xstr_append_format xs out1 out2 h = Inr ((int (length out1), xs'), h') \<and> xstr_inv h' xs' \<and>
    text_of h' xs' = text_of h xs @ out2 \<and> x_mm xs' = x_mm xs \<and> x_s xs' \<noteq> Null"
proof -
  let ?l = "x_len xs + length out2"
  from reserve_ex [OF inv, of ?l] obtain xs1 h1 c m rest where
    r: "xstr_reserve xs ?l h = Inr (xs1, h1)"
    "x_s xs1 = MemP c" "x_mm xs1 = MgrP m" "x_mm xs = MgrP m" "m < length (mgrs h1)"
    "heap_inv h1" "IS_CHUNK h1 c"
    "load h1 (MemP c) = Inr (map Some (text_of h xs) @ Some 0 # rest)"
    "0 \<notin> set (text_of h xs)" "length (text_of h xs) = x_len xs"
    "x_len xs1 = x_len xs" "length rest + x_len xs = x_a xs1"
    "x_a xs1 = (if x_a xs > ?l then x_a xs else ?l)"
    by blast
  have fit: "x_len xs + length out2 \<le> x_a xs1" using r(13) by (simp split: if_splits)
  then have "length (text_of h xs) + length out2 \<le> length (text_of h xs) + length rest"
    using r(10,12) by simp
  from buffer_write [OF r(6,7,8) order_refl this] obtain h2 rest' where
    w: "store (MemP c) (length (text_of h xs)) (map Some (out2 @ [0])) h1 = Inr h2" "heap_inv h2"
    "IS_CHUNK h2 c"
    "load h2 (MemP c) = Inr (map Some (take (length (text_of h xs)) (text_of h xs) @ out2) @ Some 0 # rest')"
    "length rest' + (length (text_of h xs) + length out2) = length (text_of h xs) + length rest"
    "length (mgrs h2) = length (mgrs h1)"
    by auto
  let ?xs = "if out2 = [] then xs1 else xs1\<lparr>x_len := x_len xs1 + length out2\<rparr>"
  have v: "vsnprintf (MemP c) (x_len xs1) (x_a xs1 - x_len xs1 + 1) out2 h1 = Inr (int (length out2), h2)"
    using w(1) fit r(10,11) by (simp add: vsnprintf_def and_then_def)
  have e: "xstr_append_format xs out1 out2 h = Inr ((int (length out2), ?xs), h2)"
    using r(1,2,11) v fit
    by (simp add: xstr_append_format_def and_then_def Let_def vsnprintf_def same [symmetric])
  have l: "x_len ?xs = x_len xs + length out2" using r(11) by auto
  have "xstr_inv h2 ?xs" "text_of h2 ?xs = text_of h xs @ out2"
    by (rule xstr_invI [of h2 ?xs m c "text_of h xs @ out2" rest'];
        use r(2,3,5,9,10,11,12) w l out(1) in \<open>simp split: if_splits\<close>)+
  moreover have "int (length out2) = int (length out1)" using same by simp
  ultimately show ?thesis using e r(2,3,4) by (intro exI [of _ ?xs] exI [of _ h2]) (simp only:, simp)
qed

section \<open>The loops of strip\<close>

declare strip_fwd.simps [simp del] strip_bwd.simps [simp del] strip_copy.simps [simp del]

lemma peek_string: "k < length u \<Longrightarrow> peek (map Some u @ rest) (int k) = Some (u ! k)"
  by (simp add: peek_def nth_append)

lemma strip_fwd_eq:
  assumes "\<And>k. k < length str \<Longrightarrow> peek mem (int k) = Some (str ! k)"
  shows "k \<le> length str \<Longrightarrow>
   strip_fwd mem (int (length str)) (int k) =
     Some (int (k + length (takeWhile (\<lambda>b. \<not> isgraph b) (drop k str))))"
proof (induction "length str - k" arbitrary: k)
  case 0
  then show ?case by (subst strip_fwd.simps) simp
next
  case (Suc d)
  then have k: "k < length str" by simp
  then have p: "peek mem (int k) = Some (str ! k)" by (rule assms)
  have dr: "drop k str = str ! k # drop (Suc k) str"
    using k by (simp add: Cons_nth_drop_Suc)
  have "strip_fwd mem (int (length str)) (int (Suc k)) =
     Some (int (Suc k + length (takeWhile (\<lambda>b. \<not> isgraph b) (drop (Suc k) str))))"
    using Suc(2) k by (intro Suc(1)) simp_all
  then have ih: "strip_fwd mem (int (length str)) (int k + 1) =
     Some (int k + 1 + int (length (takeWhile (\<lambda>b. \<not> isgraph b) (drop (Suc k) str))))"
    by (simp add: add.commute)
  show ?case
    by (subst strip_fwd.simps) (simp add: k p ih dr)
qed

lemma strip_bwd_eq:
  assumes "\<And>k. k < length u \<Longrightarrow> peek mem (int k) = Some (u ! k)"
  shows "k + w \<le> length u \<Longrightarrow>
   strip_bwd mem (int k) (int k + int w - 1) =
     Some (int k + int (length (trim_end (take w (drop k u)))) - 1)"
proof (induction w)
  case 0
  then show ?case by (subst strip_bwd.simps) (simp add: trim_end_def)
next
  case (Suc w)
  then have lt: "k + w < length u" by simp
  have j: "int k + int (Suc w) - 1 = int (k + w)" by simp
  have p: "peek mem (int (k + w)) = Some (u ! (k + w))"
    using lt by (rule assms)
  have tk: "take (Suc w) (drop k u) = take w (drop k u) @ [u ! (k + w)]"
    using lt by (simp add: take_Suc_conv_app_nth)
  have ih: "strip_bwd mem (int k) (int (k + w) - 1) =
     Some (int k + int (length (trim_end (take w (drop k u)))) - 1)"
    using Suc by simp
  have l: "length (take w (drop k u)) = w" using lt by simp
  show ?case
    unfolding j using l
    by (subst strip_bwd.simps) (simp add: p ih tk trim_end_def del: of_nat_add length_take)
qed

lemma strip_copy_eq:
  assumes "\<And>k. k < length u \<Longrightarrow> peek mem (int k) = Some (u ! k)"
  shows "k + w \<le> length u \<Longrightarrow>
   strip_copy mem (int k) (int k + int w - 1) = Some (take w (drop k u))"
proof (induction w arbitrary: k)
  case 0
  then show ?case by (subst strip_copy.simps) simp
next
  case (Suc w)
  then have lt: "k < length u" by simp
  have p: "peek mem (int k) = Some (u ! k)"
    using lt by (rule assms)
  have "strip_copy mem (int (Suc k)) (int (Suc k) + int w - 1) =
      Some (take w (drop (Suc k) u))"
    using Suc(2) by (intro Suc(1)) simp
  moreover have "int (Suc k) + int w - 1 = int k + int (Suc w) - 1" by simp
  ultimately have ih: "strip_copy mem (int k + 1) (int k + int (Suc w) - 1) =
      Some (take w (drop (Suc k) u))"
    by (simp only: of_nat_Suc add.commute)
  have tk: "take (Suc w) (drop k u) = u ! k # take w (drop (Suc k) u)"
    using lt by (simp add: Cons_nth_drop_Suc [symmetric])
  show ?case
    by (subst strip_copy.simps) (simp add: p ih tk del: of_nat_Suc)
qed

lemma trim_end_prefix: "take (length (trim_end d)) d = trim_end d"
proof -
  have "rev d = takeWhile (\<lambda>b. \<not> isgraph b) (rev d) @ dropWhile (\<lambda>b. \<not> isgraph b) (rev d)"
    by simp
  then have "d = trim_end d @ rev (takeWhile (\<lambda>b. \<not> isgraph b) (rev d))"
    unfolding trim_end_def by (metis rev_append rev_rev_ident)
  then show ?thesis by (metis append_eq_conv_conj)
qed

lemma trim_end_snoc: "\<not> isgraph x \<Longrightarrow> trim_end (d @ [x]) = trim_end d"
  by (simp add: trim_end_def)

lemma length_trim_end: "length (trim_end d) \<le> length d"
  by (simp add: trim_end_def length_dropWhile_le [of _ "rev d", simplified])

lemma not_isgraph_0: "\<not> isgraph 0"
  by (simp add: isgraph_def)

lemma strip_loops:
  fixes str :: "byte list" and rest :: "byte option list"
  defines "i \<equiv> length (takeWhile (\<lambda>b. \<not> isgraph b) str)"
  defines "mem \<equiv> map Some str @ Some 0 # rest"
  shows "strip_fwd mem (int (length str)) 0 = Some (int i)"
    and "strip_bwd mem (int i) (int (length str)) = Some (int i + int (length (strip_spec str)) - 1)"
    and "strip_copy mem (int i) (int i + int (length (strip_spec str)) - 1) = Some (strip_spec str)"
proof -
  have mem: "mem = map Some (str @ [0]) @ rest" by (simp add: mem_def)
  have pk: "peek mem (int k) = Some ((str @ [0]) ! k)" if "k < length (str @ [0::byte])" for k
    unfolding mem using that by (rule peek_string)
  have pk': "peek mem (int k) = Some (str ! k)" if "k < length str" for k
    using pk [of k] that by (simp add: nth_append)
  have i: "i \<le> length str" by (simp add: i_def length_takeWhile_le)
  have d: "drop i str = dropWhile (\<lambda>b. \<not> isgraph b) str"
    unfolding i_def by (rule dropWhile_eq_drop [symmetric])
  show "strip_fwd mem (int (length str)) 0 = Some (int i)"
    using strip_fwd_eq [of str mem 0, OF pk'] by (simp add: i_def)
  have "drop i (str @ [0]) = drop i str @ [0]" "length (drop i str @ [0::byte]) = Suc (length str) - i"
    using i by simp_all
  then have w: "take (Suc (length str) - i) (drop i (str @ [0])) = dropWhile (\<lambda>b. \<not> isgraph b) str @ [0]"
    unfolding d by (metis order_refl take_all)
  have e: "int i + int (Suc (length str) - i) - 1 = int (length str)" using i by simp
  have "i + (Suc (length str) - i) \<le> length (str @ [0::byte])" using i by simp
  then have "strip_bwd mem (int i) (int i + int (Suc (length str) - i) - 1) =
      Some (int i + int (length (trim_end (take (Suc (length str) - i) (drop i (str @ [0]))))) - 1)"
    using strip_bwd_eq [of "str @ [0]" mem i "Suc (length str) - i", OF pk] by blast
  then have "strip_bwd mem (int i) (int (length str)) =
      Some (int i + int (length (trim_end (dropWhile (\<lambda>b. \<not> isgraph b) str @ [0]))) - 1)"
    unfolding e w .
  then show "strip_bwd mem (int i) (int (length str)) = Some (int i + int (length (strip_spec str)) - 1)"
    by (simp only: trim_end_snoc [OF not_isgraph_0] strip_spec_def)
  have "length (drop i str) = length str - i" by simp
  then have l: "length (strip_spec str) \<le> length str - i"
    using length_trim_end [of "drop i str"] unfolding d by (simp only: strip_spec_def)
  have "take (length (strip_spec str)) (drop i str) = strip_spec str"
    using trim_end_prefix [of "drop i str"] by (simp add: strip_spec_def d)
  then have "take (length (strip_spec str)) (drop i (str @ [0])) = strip_spec str"
    using l i by simp
  moreover have "i + length (strip_spec str) \<le> length (str @ [0::byte])" using l i by simp
  ultimately show "strip_copy mem (int i) (int i + int (length (strip_spec str)) - 1) = Some (strip_spec str)"
    using strip_copy_eq [of "str @ [0]" mem i "length (strip_spec str)", OF pk]
    by simp
qed


lemma strip_works:
  assumes inv: "xstr_inv h xs" and st: "x_s xs \<noteq> Null"
  shows "\<exists>h'. xstr_strip xs h = Inr (MemP (length (chunks h)), h') \<and>
    \<not> IS_CHUNK h (length (chunks h)) \<and> IS_CHUNK h' (length (chunks h)) \<and>
    load h' (MemP (length (chunks h))) = Inr (map Some (strip_spec (text_of h xs) @ [0])) \<and>
    xstr_inv h' xs \<and> text_of h' xs = text_of h xs \<and> load h' (x_s xs) = load h (x_s xs)"
proof -
  from inv st obtain c m str rest where i: "x_s xs = MemP c" "x_mm xs = MgrP m" "m < length (mgrs h)"
    "heap_inv h" "IS_CHUNK h c" "load h (MemP c) = Inr (map Some str @ Some 0 # rest)" "0 \<notin> set str"
    "length str = x_len xs" "length rest + x_len xs = x_a xs" "text_of h xs = str"
    by (rule xstr_inv_storage)
  let ?n = "length (chunks h)"
  let ?mem = "map Some str @ Some 0 # rest"
  let ?i = "int (length (takeWhile (\<lambda>b. \<not> isgraph b) str))"
  let ?L = "length (strip_spec str)"
  let ?j = "?i + int ?L - 1"
  note lp = strip_loops [of str rest]
  have sz: "\<not> ?j - ?i + 2 < 0" "nat (?j - ?i + 2) = ?L + 1" by simp_all
  have cn: "c \<noteq> ?n" using IS_CHUNK_lt [OF i(5)] by simp
  from buffer_alloc [OF i(4,3), of "?L + 1"] obtain h1 where
    a: "mmatic_alloc (?L + 1) (MgrP m) h = Inr (MemP ?n, h1)" "heap_inv h1"
    "load h1 (MemP ?n) = Inr (replicate (?L + 1) None)"
    "length (mgrs h1) = length (mgrs h)"
    "\<forall>a. IS_CHUNK h1 a = (a = ?n \<or> IS_CHUNK h a)"
    "\<forall>a. a \<noteq> ?n \<longrightarrow> load h1 (MemP a) = load h (MemP a)"
    by blast
  have c1: "IS_CHUNK h1 ?n" using a(5) by simp
  have "0 + length (map Some (strip_spec str @ [0::byte])) \<le> length (replicate (?L + 1) (None :: byte option))"
    by simp
  from buffer_store [OF a(2) c1 a(3) this] obtain h2 where
    s: "store (MemP ?n) 0 (map Some (strip_spec str @ [0])) h1 = Inr h2" "heap_inv h2"
    "load h2 (MemP ?n) = Inr (take 0 (replicate (?L + 1) None) @ map Some (strip_spec str @ [0]) @
        drop (0 + length (map Some (strip_spec str @ [0::byte]))) (replicate (?L + 1) None))"
    "length (mgrs h2) = length (mgrs h1)"
    "\<forall>a. IS_CHUNK h2 a = IS_CHUNK h1 a"
    "\<forall>a. a \<noteq> ?n \<longrightarrow> load h2 (MemP a) = load h1 (MemP a)"
    by blast
  have l1: "load h1 (MemP c) = Inr ?mem" using a(6) cn i(6) by simp
  have l2: "load h2 (MemP c) = Inr ?mem" using s(6) cn l1 by simp
  have e: "xstr_strip xs h = Inr (MemP ?n, h2)"
    unfolding xstr_strip_def i(1,2,6) and_then_def i(8) [symmetric]
    by (simp only: lp sz a(1) l1 s(1) sum.case option.case prod.case if_False)
  have "xstr_inv h2 xs" "text_of h2 xs = str"
    by (rule xstr_invI [of h2 xs m c str rest]; use i l2 a s in simp)+
  moreover have "\<not> IS_CHUNK h ?n" by (simp add: IS_CHUNK_def lookup_length)
  moreover have "IS_CHUNK h2 ?n" using c1 s(5) by simp
  moreover have "load h2 (MemP ?n) = Inr (map Some (strip_spec str @ [0]))" using s(3) by simp
  ultimately show ?thesis using e i(1,6,10) l2 by auto
qed

lemma append_chars_linear:
  assumes "xstr_inv h xs" "x_a xs \<le> max (x_len xs + 2) (3 * x_len xs div 2)" "0 \<notin> set cs"
  shows "\<exists>xs' h'. append_chars xs cs h = Inr (xs', h') \<and> xstr_inv h' xs' \<and>
    text_of h' xs' = text_of h xs @ cs \<and>
    length (chunks h') = length (chunks h) + length cs"
  using assms
proof (induction cs arbitrary: xs h)
  case Nil
  then show ?case by simp
next
  case (Cons c cs)
  let ?l = "max (x_len xs + 2) (3 * x_len xs div 2)"
  have c: "c \<noteq> 0" using Cons.prems(3) by auto
  have nl: "\<not> x_a xs > ?l" using Cons.prems(2) by (rule leD)
  from append_char_works [OF Cons.prems(1), of c] c nl obtain xs1 h1 where
    s: "xstr_append_char xs c h = Inr (xs1, h1)" "xstr_inv h1 xs1"
    "text_of h1 xs1 = text_of h xs @ [c]" "x_len xs1 = x_len xs + 1"
    "x_a xs1 = ?l" "length (chunks h1) = Suc (length (chunks h))"
    by auto
  have "3 * x_len xs div 2 \<le> 3 * (x_len xs + 1) div 2" by (intro div_le_mono) simp
  then have "x_a xs1 \<le> max (x_len xs1 + 2) (3 * x_len xs1 div 2)"
    unfolding s(4,5) by (auto simp: le_max_iff_disj)
  from Cons.IH [OF s(2) this] Cons.prems(3) obtain xs' h' where
    "append_chars xs1 cs h1 = Inr (xs', h')" "xstr_inv h' xs'"
    "text_of h' xs' = text_of h1 xs1 @ cs" "length (chunks h') = length (chunks h1) + length cs"
    by auto
  then show ?case using s(1,3,6) by (simp add: and_then_def)
qed

lemma reserve_inv:
  assumes "xstr_inv h xs"
  shows "\<exists>xs' h'. xstr_reserve xs l h = Inr (xs', h') \<and> xstr_inv h' xs' \<and>
    text_of h' xs' = text_of h xs \<and> l \<le> x_a xs' \<and> x_len xs' = x_len xs"
proof -
  from reserve_ex [OF assms, of l] obtain xs1 h1 c m rest where
    r: "xstr_reserve xs l h = Inr (xs1, h1)"
    "x_s xs1 = MemP c" "x_mm xs1 = MgrP m" "m < length (mgrs h1)"
    "heap_inv h1" "IS_CHUNK h1 c"
    "load h1 (MemP c) = Inr (map Some (text_of h xs) @ Some 0 # rest)"
    "0 \<notin> set (text_of h xs)" "length (text_of h xs) = x_len xs"
    "x_len xs1 = x_len xs" "length rest + x_len xs = x_a xs1"
    "x_a xs1 = (if x_a xs > l then x_a xs else l)"
    by blast
  have "xstr_inv h1 xs1" "text_of h1 xs1 = text_of h xs"
    by (rule xstr_invI [of h1 xs1 m c "text_of h xs" rest]; use r in simp)+
  then show ?thesis using r(1,10,12) by (auto split: if_splits)
qed

lemma strip_spec_shape:
  "\<exists>pre post. str = pre @ strip_spec str @ post \<and>
     (\<forall>b\<in>set pre. \<not> isgraph b) \<and> (\<forall>b\<in>set post. \<not> isgraph b) \<and>
     (strip_spec str = [] \<or> isgraph (hd (strip_spec str)) \<and> isgraph (last (strip_spec str)))"
proof -
  let ?ng = "\<lambda>b. \<not> isgraph b"
  let ?d = "dropWhile ?ng str"
  let ?post = "rev (takeWhile ?ng (rev ?d))"
  have 1: "str = takeWhile ?ng str @ ?d" by simp
  have "rev ?d = takeWhile ?ng (rev ?d) @ dropWhile ?ng (rev ?d)" by simp
  then have 2: "?d = strip_spec str @ ?post"
    unfolding strip_spec_def trim_end_def by (metis rev_append rev_rev_ident)
  have 3: "\<forall>b\<in>set (takeWhile ?ng str). \<not> isgraph b" "\<forall>b\<in>set ?post. \<not> isgraph b"
    by (auto dest: set_takeWhileD)
  have 4: "isgraph (hd (strip_spec str)) \<and> isgraph (last (strip_spec str))" if n: "strip_spec str \<noteq> []"
  proof
    have d: "?d \<noteq> []" using 2 n by (metis Nil_is_append_conv)
    have "\<not> \<not> isgraph (hd ?d)" by (rule hd_dropWhile [OF d])
    then have "isgraph (hd ?d)" by blast
    moreover have "hd ?d = hd (strip_spec str)" using 2 n by (metis hd_append2)
    ultimately show "isgraph (hd (strip_spec str))" by simp
    have e: "dropWhile ?ng (rev ?d) \<noteq> []" using n unfolding strip_spec_def trim_end_def by auto
    have "\<not> \<not> isgraph (hd (dropWhile ?ng (rev ?d)))" by (rule hd_dropWhile [OF e])
    then have "isgraph (hd (dropWhile ?ng (rev ?d)))" by blast
    moreover have "last (strip_spec str) = hd (dropWhile ?ng (rev ?d))"
      unfolding strip_spec_def trim_end_def by (rule last_rev)
    ultimately show "isgraph (last (strip_spec str))" by simp
  qed
  have "str = takeWhile ?ng str @ strip_spec str @ ?post" using 1 2 by simp
  then show ?thesis using 3 4 by blast
qed

lemma strip_spec_none: "\<forall>b\<in>set str. \<not> isgraph b \<Longrightarrow> strip_spec str = []"
proof -
  assume "\<forall>b\<in>set str. \<not> isgraph b"
  then have e: "dropWhile (\<lambda>b. \<not> isgraph b) str = []" by simp
  show ?thesis by (simp only: strip_spec_def trim_end_def e dropWhile.simps rev.simps)
qed

lemma null_text: "x_s xs = Null \<Longrightarrow> text_of h xs = []"
  by (simp add: text_of_def content_def load_def)

section \<open>Owners and counts at the border\<close>

text \<open>
  A payload pointer as owner: the chunk 2 of \<open>heap3\<close> is zero-filled and resolves to
  its manager; the chunk 3 has 2 bytes, fewer than a tag; a payload that begins with
  the bytes of the manager tag is read as a manager.
\<close>

lemma owner_of_payload_examples:
  "owner_mgr heap3 (MemP 2) = Inr (Some 0) \<and> owner_mgr heap3 (MemP 3) = Inl Undefined \<and>
   payload_tag [Some 0x77, Some 0xA7, Some 0xBB, Some 0xBA] = Some TAG_MGR"
  by code_simp

text \<open>
  A negative count: \<^verbatim>\<open>xstr_append_size(xs, "xy", -1)\<close> on the buffer of 8 characters
  and capacity 11 appends both characters and sets the length to 7; on the buffer
  holding \<^verbatim>\<open>"abc"\<close> with capacity 3 the two characters do not fit.
\<close>

lemma negative_count_examples:
  "and_then buf_roomy (\<lambda>(xs, h). and_then (xstr_append_size xs (Some [120, 121]) (- 1) h) (\<lambda>(xs', h').
      Inr (x_len xs, x_a xs, x_len xs', x_a xs', load h' (x_s xs'), xstr_ok h' xs')))
    = Inr (8, 11, 7, 11,
        Inr [Some 49, Some 50, Some 51, Some 52, Some 53, Some 54, Some 55, Some 56,
             Some 120, Some 121, Some 0, None], False) \<and>
   and_then buf_abc (\<lambda>(xs, h). xstr_append_size xs (Some [120, 121]) (- 1) h) = Inl Undefined \<and>
   and_then buf_abc (\<lambda>(xs, h). xstr_set_size xs (Some [120, 121]) (- 1) h) = Inl Undefined"
  by (intro conjI) code_simp+

section \<open>The chunk list across the operations\<close>

text \<open>
  The invariant \<open>heap_inv\<close> holds of the empty heap (\<open>empty_heap_inv\<close>), and
  \<^verbatim>\<open>mmatic_create\<close>, \<^verbatim>\<open>mmatic_allocate\<close>, \<^verbatim>\<open>mmatic_realloc_\<close> and
  \<^verbatim>\<open>mmatic_freeptr_\<close> preserve it whenever they return. An allocation appends its
  chunk to the live chunks of its manager; a release removes the chunk and keeps the
  order of the others, wherever the chunk was in the list, and it succeeds for every
  live chunk; a reallocation that returns removes the old chunk and appends the new one.
\<close>

lemma chunk_list_invariant_kept:
  assumes "heap_inv h"
  shows "(m < length (mgrs h) \<longrightarrow> mgr_ok h m) \<and>
    heap_inv (snd (mmatic_create h)) \<and>
    (mmatic_allocate sz ow z sh h = Inr (p1, h1) \<longrightarrow>
       heap_inv h1 \<and>
       (\<exists>m. owner_mgr h ow = Inr (Some m) \<and> p1 = MemP (length (chunks h)) \<and>
          (\<forall>m'. live_chunks h1 m' = live_chunks h m' @ (if m' = m then [length (chunks h)] else [])))) \<and>
    (mmatic_realloc (MemP c2) sz2 ow2 h = Inr (p2, h2) \<longrightarrow>
       heap_inv h2 \<and>
       (\<exists>m. \<forall>m'. live_chunks h2 m' =
          filter (\<lambda>a. a \<noteq> c2) (live_chunks h m') @ (if m' = m then [length (chunks h)] else []))) \<and>
    (IS_CHUNK h c3 \<longrightarrow> (\<exists>h3. mmatic_freeptr (MemP c3) h = Inr (Null, h3))) \<and>
    (mmatic_freeptr (MemP c3) h = Inr (p3, h3) \<longrightarrow>
       heap_inv h3 \<and> (\<forall>m'. live_chunks h3 m' = filter (\<lambda>a. a \<noteq> c3) (live_chunks h m')))"
proof (intro conjI impI)
  assume "m < length (mgrs h)"
  with assms have "mgr_inv h m" by (rule heap_inv_mgr)
  then show "mgr_ok h m" by (rule mgr_inv_ok)
next
  show "heap_inv (snd (mmatic_create h))" using assms by (rule create_heap_inv)
next
  assume a: "mmatic_allocate sz ow z sh h = Inr (p1, h1)"
  then show "heap_inv h1" using assms by (rule allocate_heap_inv)
  have "p1 = MemP (length (chunks h))" by (rule allocate_effect [OF a])
  then show "\<exists>m. owner_mgr h ow = Inr (Some m) \<and> p1 = MemP (length (chunks h)) \<and>
          (\<forall>m'. live_chunks h1 m' = live_chunks h m' @ (if m' = m then [length (chunks h)] else []))"
    using allocate_live [OF a] by blast
next
  assume r: "mmatic_realloc (MemP c2) sz2 ow2 h = Inr (p2, h2)"
  then show "heap_inv h2" using assms by (rule realloc_heap_inv)
  show "\<exists>m. \<forall>m'. live_chunks h2 m' =
          filter (\<lambda>a. a \<noteq> c2) (live_chunks h m') @ (if m' = m then [length (chunks h)] else [])"
    using r by (rule realloc_live)
next
  assume "IS_CHUNK h c3"
  with assms show "\<exists>h3. mmatic_freeptr (MemP c3) h = Inr (Null, h3)" by (rule freeptr_total)
next
  assume f: "mmatic_freeptr (MemP c3) h = Inr (p3, h3)"
  then show "heap_inv h3" using assms by (rule freeptr_heap_inv)
  show "\<forall>m'. live_chunks h3 m' = filter (\<lambda>a. a \<noteq> c3) (live_chunks h m')"
    using f by (simp add: freeptr_live)
qed

lemma chunk_list_invariant_example:
  "heap_inv heap3 \<and> mgr_ok heap3 0 \<and> traverse heap3 0 = [1, 2, 3] \<and>
   heap_inv (the_heap (mmatic_freeptr (MemP 1) heap3)) \<and>
   live_chunks (the_heap (mmatic_freeptr (MemP 1) heap3)) 0 = [2, 3] \<and>
   heap_inv (the_heap (mmatic_freeptr (MemP 2) heap3)) \<and>
   live_chunks (the_heap (mmatic_freeptr (MemP 2) heap3)) 0 = [1, 3] \<and>
   heap_inv (the_heap (mmatic_freeptr (MemP 3) heap3)) \<and>
   live_chunks (the_heap (mmatic_freeptr (MemP 3) heap3)) 0 = [1, 2] \<and>
   heap_inv (the_heap (mmatic_allocate 7 (MemP 2) False False heap3)) \<and>
   live_chunks (the_heap (mmatic_allocate 7 (MemP 2) False False heap3)) 0 = [1, 2, 3, 4] \<and>
   heap_inv (the_heap (mmatic_realloc (MemP 2) 9 Null heap3)) \<and>
   live_chunks (the_heap (mmatic_realloc (MemP 2) 9 Null heap3)) 0 = [1, 3, 4]"
proof -
  have i: "heap_inv heap3" by code_simp
  have l: "live_chunks heap3 0 = [1, 2, 3]" "length (chunks heap3) = 4" "(0::nat) < length (mgrs heap3)"
    by code_simp+
  have f1: "mmatic_freeptr (MemP 1) heap3 = Inr (Null, the_heap (mmatic_freeptr (MemP 1) heap3))"
    and f2: "mmatic_freeptr (MemP 2) heap3 = Inr (Null, the_heap (mmatic_freeptr (MemP 2) heap3))"
    and f3: "mmatic_freeptr (MemP 3) heap3 = Inr (Null, the_heap (mmatic_freeptr (MemP 3) heap3))"
    and a: "mmatic_allocate 7 (MemP 2) False False heap3
      = Inr (MemP 4, the_heap (mmatic_allocate 7 (MemP 2) False False heap3))"
    and r: "mmatic_realloc (MemP 2) 9 Null heap3 = Inr (MemP 4, the_heap (mmatic_realloc (MemP 2) 9 Null heap3))"
    and o: "owner_mgr heap3 (MemP 2) = Inr (Some 0)"
    by code_simp+
  note t = chunk_list_invariant_kept [OF i, of 0 7 "MemP 2" False False "MemP 4"
      "the_heap (mmatic_allocate 7 (MemP 2) False False heap3)" 2 9 Null "MemP 4"
      "the_heap (mmatic_realloc (MemP 2) 9 Null heap3)"]
  have ok: "mgr_ok heap3 0" using t [of 1 Null heap3] l(3) by blast
  then have tr: "traverse heap3 0 = [1, 2, 3]" using l(1) by (simp add: mgr_ok_def split: option.splits)
  have 1: "heap_inv (the_heap (mmatic_freeptr (MemP 1) heap3))"
    "live_chunks (the_heap (mmatic_freeptr (MemP 1) heap3)) 0 = [2, 3]"
    using t [of 1 Null "the_heap (mmatic_freeptr (MemP 1) heap3)"] f1 l(1) by simp_all
  have 2: "heap_inv (the_heap (mmatic_freeptr (MemP 2) heap3))"
    "live_chunks (the_heap (mmatic_freeptr (MemP 2) heap3)) 0 = [1, 3]"
    using t [of 2 Null "the_heap (mmatic_freeptr (MemP 2) heap3)"] f2 l(1) by simp_all
  have 3: "heap_inv (the_heap (mmatic_freeptr (MemP 3) heap3))"
    "live_chunks (the_heap (mmatic_freeptr (MemP 3) heap3)) 0 = [1, 2]"
    using t [of 3 Null "the_heap (mmatic_freeptr (MemP 3) heap3)"] f3 l(1) by simp_all
  have 4: "heap_inv (the_heap (mmatic_allocate 7 (MemP 2) False False heap3))"
    "live_chunks (the_heap (mmatic_allocate 7 (MemP 2) False False heap3)) 0 = [1, 2, 3, 4]"
    using t [of 1 Null heap3] a o l(1,2) by auto
  have 5: "heap_inv (the_heap (mmatic_realloc (MemP 2) 9 Null heap3))"
    using t [of 1 Null heap3] r by simp
  have 6: "live_chunks (the_heap (mmatic_realloc (MemP 2) 9 Null heap3)) 0 = [1, 3, 4]"
    by code_simp
  show ?thesis using i ok tr 1 2 3 4 5 6 by simp
qed

section \<open>The buffer across the operations\<close>

text \<open>
  Every operation of \<^verbatim>\<open>xstr.c\<close> returns on a buffer that satisfies \<open>xstr_inv\<close> and
  leaves a buffer that satisfies it, when the counts of the sized operations are not
  negative and do not exceed the number of characters of the source before its first
  null byte, and when the second expansion of a format has the length of the first and
  no null byte and, for \<^verbatim>\<open>xstr_set_format\<close> on a buffer that is not empty, is not
  empty.
\<close>

lemma buffer_invariant_kept:
  assumes "xstr_inv h xs"
  shows "xstr_ok h xs \<and>
    (\<exists>xs' h'. xstr_init (x_mm xs) h = Inr (xs', h') \<and> xstr_inv h' xs' \<and> xstr_ok h' xs') \<and>
    (\<exists>p xs' h'. xstr_create k so (x_mm xs) h = Inr ((p, xs'), h') \<and> xstr_inv h' xs' \<and> xstr_ok h' xs') \<and>
    (\<exists>xs' h'. xstr_reserve xs l h = Inr (xs', h') \<and> xstr_inv h' xs' \<and> xstr_ok h' xs') \<and>
    (\<exists>xs' h'. xstr_set xs (Some s) h = Inr (xs', h') \<and> xstr_inv h' xs' \<and> xstr_ok h' xs') \<and>
    (0 \<le> n \<and> nat n \<le> length (cstr s) \<longrightarrow>
      (\<exists>xs' h'. xstr_set_size xs (Some s) n h = Inr (xs', h') \<and> xstr_inv h' xs' \<and> xstr_ok h' xs')) \<and>
    (\<exists>xs' h'. xstr_append xs so h = Inr (xs', h') \<and> xstr_inv h' xs' \<and> xstr_ok h' xs') \<and>
    (0 \<le> n \<and> (case so of None \<Rightarrow> True | Some str \<Rightarrow> nat n \<le> length (cstr str)) \<longrightarrow>
      (\<exists>xs' h'. xstr_append_size xs so n h = Inr (xs', h') \<and> xstr_inv h' xs' \<and> xstr_ok h' xs')) \<and>
    (\<exists>xs' h'. xstr_append_char xs c h = Inr (xs', h') \<and> xstr_inv h' xs' \<and> xstr_ok h' xs') \<and>
    (0 \<notin> set out2 \<and> length out2 = length out1 \<and> (out1 \<noteq> [] \<or> x_len xs = 0) \<longrightarrow>
      (\<exists>r xs' h'. xstr_set_format xs out1 out2 h = Inr ((r, xs'), h') \<and> xstr_inv h' xs' \<and> xstr_ok h' xs')) \<and>
    (0 \<notin> set out2 \<and> length out2 = length out1 \<longrightarrow>
      (\<exists>r xs' h'. xstr_append_format xs out1 out2 h = Inr ((r, xs'), h') \<and> xstr_inv h' xs' \<and> xstr_ok h' xs')) \<and>
    (\<exists>xs' h'. xstr_free xs h = Inr (xs', h') \<and> xstr_inv h' xs' \<and> xstr_ok h' xs')"
proof -
  obtain m where m: "x_mm xs = MgrP m" "m < length (mgrs h)" "heap_inv h"
    using assms by (auto simp: xstr_inv_def split: ptr.splits)
  note ok = xstr_inv_ok
  have "xstr_ok h xs" using assms by (rule ok)
  moreover have "\<exists>xs' h'. xstr_init (x_mm xs) h = Inr (xs', h') \<and> xstr_inv h' xs' \<and> xstr_ok h' xs'"
    using init_works [OF m(3,2)] ok unfolding m(1) by blast
  moreover have "\<exists>p xs' h'. xstr_create k so (x_mm xs) h = Inr ((p, xs'), h') \<and> xstr_inv h' xs' \<and> xstr_ok h' xs'"
    using create_works [OF m(3,2), of k so] ok unfolding m(1) by blast
  moreover have "\<exists>xs' h'. xstr_reserve xs l h = Inr (xs', h') \<and> xstr_inv h' xs' \<and> xstr_ok h' xs'"
    using reserve_inv [OF assms, of l] ok by blast
  moreover have "\<exists>xs' h'. xstr_set xs (Some s) h = Inr (xs', h') \<and> xstr_inv h' xs' \<and> xstr_ok h' xs'"
    using set_works [OF assms, of s] ok by blast
  moreover have "\<exists>xs' h'. xstr_set_size xs (Some s) n h = Inr (xs', h') \<and> xstr_inv h' xs' \<and> xstr_ok h' xs'"
    if "0 \<le> n \<and> nat n \<le> length (cstr s)"
  proof -
    have n: "int (nat n) = n" using that by simp
    show ?thesis using set_size_works [OF assms, of s "nat n"] ok that unfolding n by blast
  qed
  moreover have "\<exists>xs' h'. xstr_append xs so h = Inr (xs', h') \<and> xstr_inv h' xs' \<and> xstr_ok h' xs'"
    using append_works [OF assms, of so] ok by blast
  moreover have "\<exists>xs' h'. xstr_append_size xs so n h = Inr (xs', h') \<and> xstr_inv h' xs' \<and> xstr_ok h' xs'"
    if "0 \<le> n \<and> (case so of None \<Rightarrow> True | Some str \<Rightarrow> nat n \<le> length (cstr str))"
  proof -
    have n: "int (nat n) = n" using that by simp
    have "case so of None \<Rightarrow> True | Some str \<Rightarrow> nat n \<le> length (cstr str)" using that by simp
    from append_size_works [OF assms this] show ?thesis using ok unfolding n by blast
  qed
  moreover have "\<exists>xs' h'. xstr_append_char xs c h = Inr (xs', h') \<and> xstr_inv h' xs' \<and> xstr_ok h' xs'"
    using append_char_works [OF assms, of c] ok by blast
  moreover have "\<exists>r xs' h'. xstr_set_format xs out1 out2 h = Inr ((r, xs'), h') \<and> xstr_inv h' xs' \<and> xstr_ok h' xs'"
    if "0 \<notin> set out2 \<and> length out2 = length out1 \<and> (out1 \<noteq> [] \<or> x_len xs = 0)"
    using set_format_works [OF assms, of out2 out1] that ok by blast
  moreover have "\<exists>r xs' h'. xstr_append_format xs out1 out2 h = Inr ((r, xs'), h') \<and> xstr_inv h' xs' \<and> xstr_ok h' xs'"
    if "0 \<notin> set out2 \<and> length out2 = length out1"
    using append_format_works [OF assms, of out2 out1] that ok by blast
  moreover have "\<exists>xs' h'. xstr_free xs h = Inr (xs', h') \<and> xstr_inv h' xs' \<and> xstr_ok h' xs'"
    using free_works [OF assms] ok by blast
  ultimately show ?thesis by blast
qed

section \<open>Claims\<close>

text \<open>
  C1. The claim: the chunk list traversed from the sentinel is the list of the live
  chunks in the order of allocation, the tail reference is its last chunk and the
  running total is the sum of the payload sizes, and allocate, reallocate and freeOne
  each preserve this. \<^verbatim>\<open>mmatic_allocate\<close> and \<^verbatim>\<open>mmatic_freeptr_\<close> do
  (\<open>chunk_list_invariant_kept\<close>). \<^verbatim>\<open>mmatic_realloc_\<close> copies \<^verbatim>\<open>chunk->alloc\<close>
  bytes, the size of the old payload, into the new payload, whatever the new size is.
  In the state \<open>heap3\<close> the property holds and the chunks 1, 2, 3 are live; the
  reallocation of the chunk 2 from 5 bytes to 2 bytes appends the chunk 4 with 2 bytes
  of payload, the property still holds there, and the copy of 5 bytes then writes 3
  bytes past that payload, into whatever follows the block: there is no state after
  the call of which the property could be stated.
\<close>

theorem C1_realloc_shrink_leaves_no_state:
  "heap_inv heap3 \<and> mgr_ok heap3 0 \<and> traverse heap3 0 = [1, 2, 3] \<and> alloc_of heap3 2 = 5 \<and>
   (case mmatic_allocate 2 (MgrP 0) False (shared_of heap3 2) heap3 of
      Inl e \<Rightarrow> Inl e
    | Inr (p, h1) \<Rightarrow>
        Inr (p, heap_inv h1, mgr_ok h1 0, traverse h1 0, load h1 p, memcpy p (MemP 2) (alloc_of h1 2) h1))
     = Inr (MemP 4, True, True, [1, 2, 3, 4], Inr [None, None], Inl Undefined) \<and>
   mmatic_realloc (MemP 2) 2 Null heap3 = Inl Undefined"
  by code_simp

text \<open>
  C2. The claim: \<^verbatim>\<open>appendChar\<close> reserves only when fewer than 2 bytes of headroom
  remain, and leaves capacity and backing chunk unchanged otherwise, so that \<open>n\<close>
  appends to an empty buffer make a number of reservations logarithmic in \<open>n\<close>. In the
  code the condition is followed by a semicolon and guards nothing; \<^verbatim>\<open>xstr_reserve\<close>
  is called every time with \<open>max (len + 2) (3 * len div 2)\<close> and allocates whenever
  the capacity does not exceed that number. A buffer of 8 characters and capacity 11
  (3 bytes of headroom) gets a new backing chunk and capacity 12 from one append, and
  four appends to the fresh buffer allocate four chunks, one each (by
  \<open>append_chars_linear\<close>, \<open>n\<close> appends allocate \<open>n\<close> chunks).
\<close>

theorem C2_append_char_always_reallocates:
  "and_then buf_roomy (\<lambda>(xs, h). and_then (xstr_append_char xs 57 h) (\<lambda>(xs', h').
      Inr ((x_len xs, x_a xs, x_s xs, length (chunks h)), (x_len xs', x_a xs', x_s xs', length (chunks h')))))
    = Inr ((8, 11, MemP 2, 3), (9, 12, MemP 3, 4)) \<and>
   and_then buf0 (\<lambda>(xs, h). and_then (append_chars xs [65, 66, 67, 68] h) (\<lambda>(xs', h').
      Inr (x_s xs, length (chunks h), x_s xs', length (chunks h'), x_len xs')))
    = Inr (MemP 1, 2, MemP 5, 6, 4)"
  by code_simp

text \<open>
  C3. The claim: after every operation of the buffer API the capacity is at least the
  length, and the storage, when it is not null, holds exactly \<^verbatim>\<open>len\<close> characters and
  a terminator. The operations keep this when they are given what they expect
  (\<open>buffer_invariant_kept\<close>), but for two slips in the format functions.
  \<^verbatim>\<open>xstr_set_format\<close> stores the new length only
  \<^verbatim>\<open>if (len > 0)\<close>: when the format expands to the empty text, the terminator is
  written to the first byte of the storage and the length is left as it was. On the
  buffer holding \<^verbatim>\<open>"abc"\<close>, a format without conversions that expands to the empty
  text returns 0 and leaves the length 3 over the empty string. Both format functions
  hand the same \<^verbatim>\<open>va_list\<close> to \<^verbatim>\<open>vsnprintf\<close> twice: when the second expansion
  (here \<^verbatim>\<open>"7"\<close>) has not the length of the first (here \<^verbatim>\<open>"42"\<close>), the text is written,
  \<open>-1\<close> is returned and the length is left as it was, 3 over the string \<^verbatim>\<open>"7"\<close>
  after \<^verbatim>\<open>xstr_set_format\<close> and 3 over the string \<^verbatim>\<open>"abc7"\<close> after
  \<^verbatim>\<open>xstr_append_format\<close>.
\<close>

theorem C3_format_leaves_stale_length:
  "and_then buf_abc (\<lambda>(xs, h). and_then (xstr_set_format xs [] [] h) (\<lambda>((r, xs'), h').
      Inr (xstr_ok h xs, r, x_len xs', x_a xs', load h' (x_s xs'), xstr_ok h' xs')))
    = Inr (True, 0, 3, 3, Inr [Some 0, Some 98, Some 99, Some 0], False) \<and>
   and_then buf_abc (\<lambda>(xs, h). and_then (xstr_set_format xs [52, 50] [55] h) (\<lambda>((r, xs'), h').
      Inr (xstr_ok h xs, r, x_len xs', x_a xs', load h' (x_s xs'), xstr_ok h' xs')))
    = Inr (True, - 1, 3, 3, Inr [Some 55, Some 0, Some 99, Some 0], False) \<and>
   and_then buf_abc (\<lambda>(xs, h). and_then (xstr_append_format xs [52, 50] [55] h) (\<lambda>((r, xs'), h').
      Inr (xstr_ok h xs, r, x_len xs', x_a xs', load h' (x_s xs'), xstr_ok h' xs')))
    = Inr (True, - 1, 3, 5, Inr [Some 97, Some 98, Some 99, Some 55, Some 0, None], False)"
  by (intro conjI) code_simp+

text \<open>
  C4. The claim: for every live allocation of size \<open>N\<close> and every new size \<open>M\<close>,
  \<^verbatim>\<open>mmatic_realloc_\<close> allocates a fresh chunk of the same kind, releases the old one
  and returns the new payload pointer. Between the allocation and the release the code
  runs \<^verbatim>\<open>memcpy(newmem, mem, chunk->alloc)\<close>, with the size of the old payload. With
  the 3 bytes of the first chunk of \<open>heap3p\<close> and \<open>M = 2\<close>, the fresh chunk has 2
  bytes of payload, the copy of 3 bytes does not fit into them, and the call has no
  defined result. (For \<open>M = 0\<close> and for \<open>M \<ge> N\<close> the call does what the claim says,
  by \<open>realloc_works\<close>.)
\<close>

theorem C4_realloc_shrink_copies_old_size:
  "alloc_of heap3p 1 = 3 \<and> load heap3p (MemP 1) = Inr [Some 1, Some 2, Some 3] \<and>
   (case mmatic_allocate 2 (MgrP 0) False (shared_of heap3p 1) heap3p of
      Inl e \<Rightarrow> Inl e
    | Inr (p, h1) \<Rightarrow> Inr (p, shared_of h1 4 = shared_of heap3p 1, load h1 p,
        memcpy p (MemP 1) (alloc_of h1 1) h1))
     = Inr (MemP 4, True, Inr [None, None], Inl Undefined) \<and>
   mmatic_realloc (MemP 1) 2 Null heap3p = Inl Undefined"
  by code_simp




text \<open>
  C6, as stated: \<^verbatim>\<open>setSized\<close> copies exactly the first \<open>n\<close> bytes of the source
  regardless of embedded null bytes. The copy is made by \<^verbatim>\<open>strncpy\<close>, which stops at
  the first null byte and fills up with null bytes: of the source \<^verbatim>\<open>"a\0b"\<close> and
  \<open>n = 3\<close> the buffer receives \<^verbatim>\<open>"a\0\0"\<close>.
\<close>

theorem C6_set_size_embedded_null_counterexample:
  "and_then buf0 (\<lambda>(xs, h). and_then (xstr_set_size xs (Some [97, 0, 98]) 3 h) (\<lambda>(xs', h').
      Inr (x_len xs', load h' (x_s xs'))))
    = Inr (3, Inr [Some 97, Some 0, Some 0, Some 0])"
  by code_simp

text \<open>
  C6, amended: for every buffer that satisfies the invariant of a buffer (\<open>xstr_inv\<close>)
  and every count \<open>n\<close> that is not negative, \<^verbatim>\<open>setSized(buffer, s, n)\<close>
  copies the first \<open>n\<close> bytes of \<open>s\<close> up to its first null byte, fills the rest of the
  \<open>n\<close> bytes with null bytes, writes a terminator after them and sets the length to
  \<open>n\<close>; when there is no null byte among the first \<open>n\<close> bytes of \<open>s\<close>, the buffer
  receives exactly those \<open>n\<close> bytes. (The count is an \<^verbatim>\<open>int\<close>; a negative count is
  not tested for and leaves the call undefined.)
\<close>

theorem C6_set_size:
  assumes "xstr_inv h xs" and "0 \<le> n"
  shows "\<exists>xs' h' c rest. xstr_set_size xs (Some s) n h = Inr (xs', h') \<and>
    x_s xs' = MemP c \<and> int (x_len xs') = n \<and>
    load h' (MemP c) =
      Inr (map Some (take (nat n) (cstr s) @ replicate (nat n - length (cstr s)) 0 @ [0]) @ rest) \<and>
    (0 \<notin> set (take (nat n) s) \<and> nat n \<le> length s \<longrightarrow>
       load h' (MemP c) = Inr (map Some (take (nat n) s @ [0]) @ rest) \<and>
       xstr_inv h' xs' \<and> text_of h' xs' = take (nat n) s)"
proof -
  define k where "k = nat n"
  have n: "n = int k" using assms(2) by (simp add: k_def)
  from set_size_works [OF assms(1), of s k] obtain xs' h' c rest where
    w: "xstr_set_size xs (Some s) (int k) h = Inr (xs', h')" "x_s xs' = MemP c" "x_len xs' = k"
    "load h' (MemP c) = Inr (map Some (take k (cstr s) @ replicate (k - length (cstr s)) 0) @ Some 0 # rest)"
    "k \<le> length (cstr s) \<longrightarrow> xstr_inv h' xs' \<and> text_of h' xs' = take k (cstr s)"
    by blast
  have "take k (cstr s) = take k s \<and> k \<le> length (cstr s)" if "0 \<notin> set (take k s)" "k \<le> length s"
  proof -
    have t: "take k (cstr s) = take k s" using that by (rule cstr_take)
    have "k = length (take k s)" using that(2) by simp
    also have "\<dots> = length (take k (cstr s))" by (simp only: t)
    also have "\<dots> \<le> length (cstr s)" by simp
    finally show ?thesis using t by simp
  qed
  then have "\<exists>xs' h' c rest. xstr_set_size xs (Some s) (int k) h = Inr (xs', h') \<and>
    x_s xs' = MemP c \<and> int (x_len xs') = int k \<and>
    load h' (MemP c) =
      Inr (map Some (take k (cstr s) @ replicate (k - length (cstr s)) 0 @ [0]) @ rest) \<and>
    (0 \<notin> set (take k s) \<and> k \<le> length s \<longrightarrow>
       load h' (MemP c) = Inr (map Some (take k s @ [0]) @ rest) \<and>
       xstr_inv h' xs' \<and> text_of h' xs' = take k s)"
    using w by (intro exI [of _ xs'] exI [of _ h'] exI [of _ c] exI [of _ rest]) auto
  then show ?thesis unfolding n nat_int .
qed

theorem C6_set_size_witness:
  "xstr_inv (the_heap buf_abc) (the_xstr buf_abc) \<and> (0::int) \<le> 2 \<and>
   (\<exists>xs' h' c rest. xstr_set_size (the_xstr buf_abc) (Some [120, 121, 122, 119]) 2 (the_heap buf_abc) = Inr (xs', h') \<and>
      x_s xs' = MemP c \<and> x_len xs' = 2 \<and>
      load h' (MemP c) = Inr (map Some [120, 121, 0] @ rest) \<and> text_of h' xs' = [120, 121])"
proof -
  have i: "xstr_inv (the_heap buf_abc) (the_xstr buf_abc)" by code_simp
  have c: "cstr [120, 121, 122, 119] = [120, 121, 122, 119]" by (simp add: cstr_def)
  have z: "(0::int) \<le> 2" by simp
  show ?thesis
    using C6_set_size [OF i z, of "[120, 121, 122, 119]"] i
    by (simp add: c) blast
qed

text \<open>
  C7, as stated: \<^verbatim>\<open>appendSized\<close> leaves the buffer unchanged whenever \<open>s\<close> is the
  empty string. \<^verbatim>\<open>xstr_append_size\<close> tests the pointer and the count only: with the
  empty string and \<open>n = 3\<close> the length of the fresh buffer becomes 3 and its storage
  moves to a new chunk.
\<close>

theorem C7_append_size_empty_counterexample:
  "and_then buf0 (\<lambda>(xs, h). and_then (xstr_append_size xs (Some []) 3 h) (\<lambda>(xs', h').
      Inr ((x_len xs, x_a xs, x_s xs), (x_len xs', x_a xs', x_s xs'))))
    = Inr ((0, 0, MemP 1), (3, 3, MemP 2))"
  by code_simp

text \<open>
  C7, amended: \<^verbatim>\<open>append(buffer, s)\<close> leaves the buffer completely unchanged whenever
  \<open>s\<close> is null or the empty string, and \<^verbatim>\<open>appendSized(buffer, s, n)\<close> whenever \<open>s\<close>
  is null or \<open>n\<close> is 0. (The empty string is the empty list of bytes or a list that
  starts with a null byte.)
\<close>

theorem C7_append_nothing:
  "xstr_append sx None h = Inr (sx, h) \<and>
   xstr_append sx (Some []) h = Inr (sx, h) \<and>
   xstr_append sx (Some (0 # t)) h = Inr (sx, h) \<and>
   xstr_append_size sx None n h = Inr (sx, h) \<and>
   xstr_append_size sx s 0 h = Inr (sx, h)"
  by (simp add: xstr_append_def xstr_append_size_def cstr_def split: option.splits)

text \<open>
  C8, as stated: for every buffer, \<^verbatim>\<open>xstr_strip\<close> returns the stripped content, and the
  empty string when the buffer is empty. \<^verbatim>\<open>xstr_strip\<close> reads the storage without a
  test, as the other functions that read it do, and scans it by the length the
  structure records. On a buffer that has been freed the storage is null, and the
  backward scan, which starts at the index \<^verbatim>\<open>len\<close>, reads through the null pointer.
  On the buffer that \<^verbatim>\<open>xstr_append_size\<close> leaves when its count exceeds the length of
  the source (\<^verbatim>\<open>"ab"\<close> and 5 on the fresh buffer), the length is 5 over the string
  \<^verbatim>\<open>"ab"\<close>, and the backward scan reads a byte that was never written.
\<close>

theorem C8_strip_precondition_counterexample:
  "and_then buf_hello (\<lambda>(xs, h). and_then (xstr_free xs h) (\<lambda>(xf, hf).
      Inr (x_s xf, x_len xf, x_a xf, xstr_strip xf hf)))
    = Inr (Null, 0, 0, Inl Undefined) \<and>
   and_then buf0 (\<lambda>(xs, h). and_then (xstr_append_size xs (Some [97, 98]) 5 h) (\<lambda>(xs', h').
      Inr (x_s xs', x_len xs', load h' (x_s xs'), xstr_strip xs' h')))
    = Inr (MemP 2, 5, Inr [Some 97, Some 98, Some 0, None, None, None], Inl Undefined)"
  by (intro conjI) code_simp+

text \<open>
  C8, amended: for every buffer that satisfies the invariant of a buffer (\<open>xstr_inv\<close>:
  the capacity is at least the length, and the storage is a live chunk of capacity + 1
  bytes that holds exactly \<^verbatim>\<open>len\<close> characters, none of them null, and a terminator
  after them) and whose storage is not null, \<^verbatim>\<open>xstr_strip\<close> returns a newly allocated
  string \<open>res\<close> such that the content of the buffer is \<open>pre @ res @ post\<close>, where no
  character of \<open>pre\<close> and of \<open>post\<close> is printable (\<^verbatim>\<open>isgraph\<close>) and \<open>res\<close> is empty or
  begins and ends with a printable character; the buffer, its storage and its content
  are unchanged; and \<open>res\<close> is empty when the buffer is empty or holds no printable
  character.
\<close>

theorem C8_strip:
  assumes "xstr_inv h xs" and "x_s xs \<noteq> Null"
  shows "\<exists>h' res pre post.
    xstr_strip xs h = Inr (MemP (length (chunks h)), h') \<and>
    \<not> IS_CHUNK h (length (chunks h)) \<and> IS_CHUNK h' (length (chunks h)) \<and>
    load h' (MemP (length (chunks h))) = Inr (map Some (res @ [0])) \<and>
    res = strip_spec (text_of h xs) \<and>
    text_of h xs = pre @ res @ post \<and>
    (\<forall>b\<in>set pre. \<not> isgraph b) \<and> (\<forall>b\<in>set post. \<not> isgraph b) \<and>
    (res = [] \<or> isgraph (hd res) \<and> isgraph (last res)) \<and>
    ((\<forall>b\<in>set (text_of h xs). \<not> isgraph b) \<longrightarrow> res = []) \<and>
    xstr_inv h' xs \<and> text_of h' xs = text_of h xs \<and> load h' (x_s xs) = load h (x_s xs)"
proof -
  let ?t = "text_of h xs"
  from strip_works [OF assms] obtain h' where
    s: "xstr_strip xs h = Inr (MemP (length (chunks h)), h')"
      "\<not> IS_CHUNK h (length (chunks h))" "IS_CHUNK h' (length (chunks h))"
      "load h' (MemP (length (chunks h))) = Inr (map Some (strip_spec ?t @ [0]))"
      "xstr_inv h' xs" "text_of h' xs = ?t" "load h' (x_s xs) = load h (x_s xs)"
    by blast
  from strip_spec_shape [of ?t] obtain pre post where
    p: "?t = pre @ strip_spec ?t @ post"
      "\<forall>b\<in>set pre. \<not> isgraph b" "\<forall>b\<in>set post. \<not> isgraph b"
      "strip_spec ?t = [] \<or> isgraph (hd (strip_spec ?t)) \<and> isgraph (last (strip_spec ?t))"
    by blast
  have n: "(\<forall>b\<in>set ?t. \<not> isgraph b) \<longrightarrow> strip_spec ?t = []"
    using strip_spec_none by blast
  show ?thesis
    apply (rule exI [of _ h'])
    apply (rule exI [of _ "strip_spec ?t"])
    apply (rule exI [of _ pre])
    apply (rule exI [of _ post])
    apply (intro conjI)
    apply (rule s p n refl)+
    done
qed

theorem C8_strip_witness:
  "xstr_inv (the_heap buf_hello) (the_xstr buf_hello) \<and> x_s (the_xstr buf_hello) \<noteq> Null \<and>
   text_of (the_heap buf_hello) (the_xstr buf_hello) = [32, 32, 104, 101, 108, 108, 111, 32, 32] \<and>
   (\<exists>h'. xstr_strip (the_xstr buf_hello) (the_heap buf_hello) = Inr (MemP 3, h') \<and>
      load h' (MemP 3) = Inr (map Some [104, 101, 108, 108, 111, 0]) \<and>
      text_of h' (the_xstr buf_hello) = [32, 32, 104, 101, 108, 108, 111, 32, 32])"
proof -
  have i: "xstr_inv (the_heap buf_hello) (the_xstr buf_hello)" by code_simp
  have n: "x_s (the_xstr buf_hello) \<noteq> Null" by code_simp
  have t: "text_of (the_heap buf_hello) (the_xstr buf_hello) = [32, 32, 104, 101, 108, 108, 111, 32, 32]"
    by code_simp
  have l: "length (chunks (the_heap buf_hello)) = 3" by code_simp
  have sp: "strip_spec [32, 32, 104, 101, 108, 108, 111, 32, 32] = [104, 101, 108, 108, 111]"
    by code_simp
  from C8_strip [OF i n] obtain h' res where
    r: "xstr_strip (the_xstr buf_hello) (the_heap buf_hello) = Inr (MemP (length (chunks (the_heap buf_hello))), h')"
      "load h' (MemP (length (chunks (the_heap buf_hello)))) = Inr (map Some (res @ [0]))"
      "res = strip_spec (text_of (the_heap buf_hello) (the_xstr buf_hello))"
      "text_of h' (the_xstr buf_hello) = text_of (the_heap buf_hello) (the_xstr buf_hello)"
    by blast
  have "res = [104, 101, 108, 108, 111]" using r(3) unfolding t sp .
  then show ?thesis using i n t r(1,2,4) unfolding l by simp
qed

text \<open>
  C9. The claim: when a live allocation of \<open>N\<close> bytes is reallocated to \<open>M\<close> bytes with
  \<open>0 < M < N\<close>, the copy into the new payload stays within its \<open>M\<close> bytes. The code
  copies \<^verbatim>\<open>chunk->alloc\<close> bytes, the size of the old payload, whatever the new size
  is. After \<^verbatim>\<open>mmatic_create\<close> and an allocation of 8 bytes, the reallocation to 4 bytes
  allocates a payload of 4 bytes, and its \<^verbatim>\<open>memcpy\<close> of 8 bytes writes past the end of
  that payload.
\<close>

theorem C9_realloc_shrink_overruns:
  "and_then (mmatic_allocate 8 (MgrP 0) False False (snd (mmatic_create empty_heap)))
     (\<lambda>(p, h). and_then (mmatic_allocate 4 (MgrP 0) False False h)
        (\<lambda>(q, h1). Inr (p, q, load h1 q, memcpy q p 8 h1, mmatic_realloc p 4 Null h)))
   = Inr (MemP 1, MemP 2, Inr [None, None, None, None], Inl Undefined, Inl Undefined)"
  by code_simp

text \<open>
  C10, as stated: after \<^verbatim>\<open>xstr_free\<close> the buffer is indistinguishable from a freshly
  initialised empty buffer, whose storage would be null. The buffer fresh from
  \<^verbatim>\<open>xstr_init\<close> has a storage of one byte that holds the terminator, and
  \<^verbatim>\<open>xstr_to_char\<close> returns it; after \<^verbatim>\<open>xstr_free\<close> \<^verbatim>\<open>xstr_to_char\<close> returns null.
\<close>

theorem C10_fresh_buffer_has_storage_counterexample:
  "and_then buf0 (\<lambda>(xs, h). and_then (xstr_free xs h) (\<lambda>(xf, hf).
      Inr ((x_len xs, x_a xs, xstr_to_char xs, load h (xstr_to_char xs)),
           (x_len xf, x_a xf, xstr_to_char xf, load hf (xstr_to_char xf)))))
    = Inr ((0, 0, MemP 1, Inr [Some 0]), (0, 0, Null, Inl Undefined))"
  by code_simp

text \<open>
  C10, amended: after \<^verbatim>\<open>xstr_free\<close> of a buffer that satisfies the invariant of a
  buffer (\<open>xstr_inv\<close>), the length and the capacity are 0 and the storage is null,
  which is the state \<^verbatim>\<open>xstr_init_val\<close> sets before it stores the initial value and
  not the state of a freshly initialised buffer; \<^verbatim>\<open>xstr_free\<close> again changes nothing;
  and each mutator returns on the freed buffer and leaves a buffer that satisfies the
  invariant and holds what the mutator stores in an empty buffer, in newly allocated
  storage (for \<^verbatim>\<open>xstr_append\<close> and \<^verbatim>\<open>xstr_append_size\<close> only when there is something
  to append). This is so for \<^verbatim>\<open>xstr_set_size\<close> and \<^verbatim>\<open>xstr_append_size\<close> when the
  count is not negative and does not exceed the number of characters of the source
  before its first null byte, and for \<^verbatim>\<open>xstr_set_format\<close> and
  \<^verbatim>\<open>xstr_append_format\<close> when the second expansion of the format has the length of
  the first and no null byte, as it has for a format without conversions.
\<close>

theorem C10_free_then_use:
  assumes "xstr_inv h xs"
  shows "\<exists>xf hf. xstr_free xs h = Inr (xf, hf) \<and>
    x_s xf = Null \<and> x_len xf = 0 \<and> x_a xf = 0 \<and> x_mm xf = x_mm xs \<and>
    xstr_free xf hf = Inr (xf, hf) \<and>
    (\<exists>xs' h'. xstr_set xf (Some s) hf = Inr (xs', h') \<and> xstr_inv h' xs' \<and>
       x_s xs' \<noteq> Null \<and> text_of h' xs' = cstr s \<and> x_len xs' = length (cstr s)) \<and>
    (0 \<le> n \<and> nat n \<le> length (cstr s) \<longrightarrow>
      (\<exists>xs' h'. xstr_set_size xf (Some s) n hf = Inr (xs', h') \<and> xstr_inv h' xs' \<and>
         x_s xs' \<noteq> Null \<and> text_of h' xs' = take (nat n) (cstr s) \<and> int (x_len xs') = n)) \<and>
    (\<exists>xs' h'. xstr_append xf so hf = Inr (xs', h') \<and> xstr_inv h' xs' \<and>
       text_of h' xs' = (case so of None \<Rightarrow> [] | Some str \<Rightarrow> cstr str)) \<and>
    (0 \<le> n \<and> (case so of None \<Rightarrow> True | Some str \<Rightarrow> nat n \<le> length (cstr str)) \<longrightarrow>
      (\<exists>xs' h'. xstr_append_size xf so n hf = Inr (xs', h') \<and> xstr_inv h' xs' \<and>
         text_of h' xs' = (case so of None \<Rightarrow> [] | Some str \<Rightarrow> take (nat n) (cstr str)))) \<and>
    (\<exists>xs' h'. xstr_append_char xf c hf = Inr (xs', h') \<and> xstr_inv h' xs' \<and>
       text_of h' xs' = (if c = 0 then [] else [c]) \<and> (c \<noteq> 0 \<longrightarrow> x_s xs' \<noteq> Null)) \<and>
    (0 \<notin> set out2 \<and> length out2 = length out1 \<longrightarrow>
      (\<exists>xs' h'. xstr_set_format xf out1 out2 hf = Inr ((int (length out1), xs'), h') \<and>
         xstr_inv h' xs' \<and> x_s xs' \<noteq> Null \<and> text_of h' xs' = out2)) \<and>
    (0 \<notin> set out2 \<and> length out2 = length out1 \<longrightarrow>
      (\<exists>xs' h'. xstr_append_format xf out1 out2 hf = Inr ((int (length out1), xs'), h') \<and>
         xstr_inv h' xs' \<and> x_s xs' \<noteq> Null \<and> text_of h' xs' = out2))"
proof -
  define xf where "xf = xs\<lparr>x_s := Null, x_len := 0, x_a := 0\<rparr>"
  from free_works [OF assms] obtain hf where
    f: "xstr_free xs h = Inr (xf, hf)" and inv: "xstr_inv hf xf"
    unfolding xf_def by blast
  have z: "x_s xf = Null" "x_len xf = 0" "x_a xf = 0" "x_mm xf = x_mm xs"
    by (simp_all add: xf_def)
  have t: "text_of hf xf = []" using z(1) by (rule null_text)
  have again: "xstr_free xf hf = Inr (xf, hf)" using z(1) by (simp add: xstr_free_def)
  have 1: "\<exists>xs' h'. xstr_set xf (Some s) hf = Inr (xs', h') \<and> xstr_inv h' xs' \<and>
       x_s xs' \<noteq> Null \<and> text_of h' xs' = cstr s \<and> x_len xs' = length (cstr s)"
    using set_works [OF inv, of s] by blast
  have 2: "\<exists>xs' h'. xstr_set_size xf (Some s) n hf = Inr (xs', h') \<and> xstr_inv h' xs' \<and>
         x_s xs' \<noteq> Null \<and> text_of h' xs' = take (nat n) (cstr s) \<and> int (x_len xs') = n"
    if "0 \<le> n \<and> nat n \<le> length (cstr s)"
  proof -
    have n: "int (nat n) = n" using that by simp
    from set_size_works [OF inv, of s "nat n"] that obtain xs' h' c where
      "xstr_set_size xf (Some s) (int (nat n)) hf = Inr (xs', h')" "x_s xs' = MemP c" "x_len xs' = nat n"
      "xstr_inv h' xs'" "text_of h' xs' = take (nat n) (cstr s)"
      by blast
    then show ?thesis using that unfolding n by auto
  qed
  have 3: "\<exists>xs' h'. xstr_append xf so hf = Inr (xs', h') \<and> xstr_inv h' xs' \<and>
       text_of h' xs' = (case so of None \<Rightarrow> [] | Some str \<Rightarrow> cstr str)"
    using append_works [OF inv, of so] unfolding t by auto
  have 4: "\<exists>xs' h'. xstr_append_size xf so n hf = Inr (xs', h') \<and> xstr_inv h' xs' \<and>
         text_of h' xs' = (case so of None \<Rightarrow> [] | Some str \<Rightarrow> take (nat n) (cstr str))"
    if "0 \<le> n \<and> (case so of None \<Rightarrow> True | Some str \<Rightarrow> nat n \<le> length (cstr str))"
  proof -
    have n: "int (nat n) = n" using that by simp
    have "case so of None \<Rightarrow> True | Some str \<Rightarrow> nat n \<le> length (cstr str)" using that by simp
    from append_size_works [OF inv this] show ?thesis unfolding t n by auto
  qed
  have 5: "\<exists>xs' h'. xstr_append_char xf c hf = Inr (xs', h') \<and> xstr_inv h' xs' \<and>
       text_of h' xs' = (if c = 0 then [] else [c]) \<and> (c \<noteq> 0 \<longrightarrow> x_s xs' \<noteq> Null)"
  proof -
    from append_char_works [OF inv, of c] obtain xs' h' where
      a: "xstr_append_char xf c hf = Inr (xs', h')" "xstr_inv h' xs'"
        "text_of h' xs' = text_of hf xf @ (if c = 0 then [] else [c])"
        "c \<noteq> 0 \<longrightarrow> (x_a xf \<le> max (x_len xf + 2) (3 * x_len xf div 2) \<longrightarrow> x_s xs' = MemP (length (chunks hf)))"
      by blast
    have "c \<noteq> 0 \<longrightarrow> x_s xs' \<noteq> Null" using a(4) z by simp
    then show ?thesis using a(1,2,3) unfolding t by auto
  qed
  have 6: "\<exists>xs' h'. xstr_set_format xf out1 out2 hf = Inr ((int (length out1), xs'), h') \<and>
         xstr_inv h' xs' \<and> x_s xs' \<noteq> Null \<and> text_of h' xs' = out2"
    if "0 \<notin> set out2 \<and> length out2 = length out1"
    using set_format_works [OF inv, of out2 out1] that z(2) by blast
  have 7: "\<exists>xs' h'. xstr_append_format xf out1 out2 hf = Inr ((int (length out1), xs'), h') \<and>
         xstr_inv h' xs' \<and> x_s xs' \<noteq> Null \<and> text_of h' xs' = out2"
    if "0 \<notin> set out2 \<and> length out2 = length out1"
    using append_format_works [OF inv, of out2 out1] that unfolding t by auto
  show ?thesis
    using f z again 1 2 3 4 5 6 7 by (intro exI [of _ xf] exI [of _ hf]) blast
qed

theorem C10_free_then_use_witness:
  "xstr_inv (the_heap buf_abc) (the_xstr buf_abc) \<and> x_s (the_xstr buf_abc) = MemP 2 \<and>
   (\<exists>xf hf. xstr_free (the_xstr buf_abc) (the_heap buf_abc) = Inr (xf, hf) \<and>
      x_s xf = Null \<and> x_len xf = 0 \<and> x_a xf = 0 \<and> xstr_free xf hf = Inr (xf, hf) \<and>
      (\<exists>xs' h'. xstr_set xf (Some [120, 121, 122]) hf = Inr (xs', h') \<and> text_of h' xs' = [120, 121, 122]) \<and>
      (\<exists>xs' h'. xstr_set_size xf (Some [120, 121, 122]) 2 hf = Inr (xs', h') \<and> text_of h' xs' = [120, 121]) \<and>
      (\<exists>xs' h'. xstr_append xf (Some [120, 121, 122]) hf = Inr (xs', h') \<and> text_of h' xs' = [120, 121, 122]) \<and>
      (\<exists>xs' h'. xstr_append_size xf (Some [120, 121, 122]) 2 hf = Inr (xs', h') \<and> text_of h' xs' = [120, 121]) \<and>
      (\<exists>xs' h'. xstr_append_char xf 120 hf = Inr (xs', h') \<and> text_of h' xs' = [120] \<and> x_s xs' \<noteq> Null) \<and>
      (\<exists>xs' h'. xstr_set_format xf [52, 50] [52, 50] hf = Inr ((2, xs'), h') \<and> text_of h' xs' = [52, 50]) \<and>
      (\<exists>xs' h'. xstr_append_format xf [52, 50] [52, 50] hf = Inr ((2, xs'), h') \<and> text_of h' xs' = [52, 50]))"
proof -
  have i: "xstr_inv (the_heap buf_abc) (the_xstr buf_abc)" by code_simp
  have p: "x_s (the_xstr buf_abc) = MemP 2" by code_simp
  have c: "cstr [120, 121, 122] = [120, 121, 122]" by (simp add: cstr_def)
  have n2: "nat 2 = 2" by simp
  have tk: "take 2 [120, 121, 122 :: byte] = [120, 121]" by simp
  have ln: "int (length [52, 50 :: byte]) = 2" by simp
  have ch: "(if (120::byte) = 0 then [] else [120]) = [120::byte]" by simp
  have n: "(0::int) \<le> 2 \<and> 2 \<le> length [120, 121, 122 :: byte]"
    "(0::byte) \<notin> set [52, 50] \<and> length [52, 50 :: byte] = length [52, 50 :: byte]" "(120::byte) \<noteq> 0"
    by simp_all
  note t = C10_free_then_use [OF i, of "[120, 121, 122]" 2 "Some [120, 121, 122]" 120 "[52, 50]" "[52, 50]",
      unfolded option.case c n2 tk ln ch]
  obtain xf hf where
    r: "xstr_free (the_xstr buf_abc) (the_heap buf_abc) = Inr (xf, hf)"
      "x_s xf = Null" "x_len xf = 0" "x_a xf = 0" "x_mm xf = x_mm (the_xstr buf_abc)"
      "xstr_free xf hf = Inr (xf, hf)"
      "\<exists>xs' h'. xstr_set xf (Some [120, 121, 122]) hf = Inr (xs', h') \<and> xstr_inv h' xs' \<and>
         x_s xs' \<noteq> Null \<and> text_of h' xs' = [120, 121, 122] \<and> x_len xs' = length [120, 121, 122 :: byte]"
      "0 \<le> (2::int) \<and> 2 \<le> length [120, 121, 122 :: byte] \<longrightarrow>
        (\<exists>xs' h'. xstr_set_size xf (Some [120, 121, 122]) 2 hf = Inr (xs', h') \<and> xstr_inv h' xs' \<and>
         x_s xs' \<noteq> Null \<and> text_of h' xs' = [120, 121] \<and> int (x_len xs') = 2)"
      "\<exists>xs' h'. xstr_append xf (Some [120, 121, 122]) hf = Inr (xs', h') \<and> xstr_inv h' xs' \<and>
         text_of h' xs' = [120, 121, 122]"
      "0 \<le> (2::int) \<and> 2 \<le> length [120, 121, 122 :: byte] \<longrightarrow>
        (\<exists>xs' h'. xstr_append_size xf (Some [120, 121, 122]) 2 hf = Inr (xs', h') \<and> xstr_inv h' xs' \<and>
         text_of h' xs' = [120, 121])"
      "\<exists>xs' h'. xstr_append_char xf 120 hf = Inr (xs', h') \<and> xstr_inv h' xs' \<and>
         text_of h' xs' = [120] \<and> (120 \<noteq> (0::byte) \<longrightarrow> x_s xs' \<noteq> Null)"
      "0 \<notin> set [52, 50 :: byte] \<and> length [52, 50 :: byte] = length [52, 50 :: byte] \<longrightarrow>
        (\<exists>xs' h'. xstr_set_format xf [52, 50] [52, 50] hf = Inr ((2, xs'), h') \<and> xstr_inv h' xs' \<and>
         x_s xs' \<noteq> Null \<and> text_of h' xs' = [52, 50])"
      "0 \<notin> set [52, 50 :: byte] \<and> length [52, 50 :: byte] = length [52, 50 :: byte] \<longrightarrow>
        (\<exists>xs' h'. xstr_append_format xf [52, 50] [52, 50] hf = Inr ((2, xs'), h') \<and> xstr_inv h' xs' \<and>
         x_s xs' \<noteq> Null \<and> text_of h' xs' = [52, 50])"
    using t by - (erule exE, erule exE, elim conjE, rule that)
  have 1: "\<exists>xs' h'. xstr_set xf (Some [120, 121, 122]) hf = Inr (xs', h') \<and> text_of h' xs' = [120, 121, 122]"
    using r(7) by blast
  have 2: "\<exists>xs' h'. xstr_set_size xf (Some [120, 121, 122]) 2 hf = Inr (xs', h') \<and> text_of h' xs' = [120, 121]"
    using r(8) n(1) by blast
  have 3: "\<exists>xs' h'. xstr_append xf (Some [120, 121, 122]) hf = Inr (xs', h') \<and> text_of h' xs' = [120, 121, 122]"
    using r(9) by blast
  have 4: "\<exists>xs' h'. xstr_append_size xf (Some [120, 121, 122]) 2 hf = Inr (xs', h') \<and> text_of h' xs' = [120, 121]"
    using r(10) n(1) by blast
  have 5: "\<exists>xs' h'. xstr_append_char xf 120 hf = Inr (xs', h') \<and> text_of h' xs' = [120] \<and> x_s xs' \<noteq> Null"
    using r(11) n(3) by blast
  have 6: "\<exists>xs' h'. xstr_set_format xf [52, 50] [52, 50] hf = Inr ((2, xs'), h') \<and> text_of h' xs' = [52, 50]"
    using r(12) n(2) by blast
  have 7: "\<exists>xs' h'. xstr_append_format xf [52, 50] [52, 50] hf = Inr ((2, xs'), h') \<and> text_of h' xs' = [52, 50]"
    using r(13) n(2) by blast
  have "\<exists>xf hf. xstr_free (the_xstr buf_abc) (the_heap buf_abc) = Inr (xf, hf) \<and>
      x_s xf = Null \<and> x_len xf = 0 \<and> x_a xf = 0 \<and> xstr_free xf hf = Inr (xf, hf) \<and>
      (\<exists>xs' h'. xstr_set xf (Some [120, 121, 122]) hf = Inr (xs', h') \<and> text_of h' xs' = [120, 121, 122]) \<and>
      (\<exists>xs' h'. xstr_set_size xf (Some [120, 121, 122]) 2 hf = Inr (xs', h') \<and> text_of h' xs' = [120, 121]) \<and>
      (\<exists>xs' h'. xstr_append xf (Some [120, 121, 122]) hf = Inr (xs', h') \<and> text_of h' xs' = [120, 121, 122]) \<and>
      (\<exists>xs' h'. xstr_append_size xf (Some [120, 121, 122]) 2 hf = Inr (xs', h') \<and> text_of h' xs' = [120, 121]) \<and>
      (\<exists>xs' h'. xstr_append_char xf 120 hf = Inr (xs', h') \<and> text_of h' xs' = [120] \<and> x_s xs' \<noteq> Null) \<and>
      (\<exists>xs' h'. xstr_set_format xf [52, 50] [52, 50] hf = Inr ((2, xs'), h') \<and> text_of h' xs' = [52, 50]) \<and>
      (\<exists>xs' h'. xstr_append_format xf [52, 50] [52, 50] hf = Inr ((2, xs'), h') \<and> text_of h' xs' = [52, 50])"
    apply (rule exI [of _ xf])
    apply (rule exI [of _ hf])
    apply (intro conjI)
    apply (rule r(1) r(2) r(3) r(4) r(6) 1 2 3 4 5 6 7)+
    done
  with i p show ?thesis by (intro conjI)
qed

end
